theory Spec2Isabelle
  imports
    Main
    "HOL-Library.Char_ord"
    "HOL-Library.List_Lexorder"
    "HOL-Library.Product_Lexorder"
    "HOL-Library.Option_ord"
    "HOL-Library.AList"
    "HOL-Library.Multiset"
begin

section \<open>Failures: returned errors and panics\<close>

text \<open>
  A Go function of this package either returns normally, returns a non-nil \<open>error\<close>, or
  panics. The two failures are kept apart: \<open>Inl (Error msg)\<close> is a returned error,
  \<open>Inl (Panic msg)\<close> is a panic, \<open>Inr v\<close> is a normal return.
\<close>

datatype failure = Error string | Panic string

section \<open>moduleid.go\<close>

text \<open>\<open>type ModuleId struct { module.Version }\<close>, with fields \<open>Path\<close> and \<open>Version\<close>.\<close>

record ModuleId =
  Path :: string
  Version :: string

definition NewModuleId :: "string \<Rightarrow> string \<Rightarrow> ModuleId" where
  "NewModuleId path ver = \<lparr>Path = path, Version = ver\<rparr>"

text \<open>
  \<open>strings.SplitN(s, "@", 2)\<close> of the Go standard library: at most two substrings, cut at
  the first separator; the second one is the unsplit remainder. Without a separator the
  result is the one-element slice holding \<open>s\<close>.
\<close>

definition SplitN_at_2 :: "string \<Rightarrow> string list" where
  "SplitN_at_2 s =
     (if CHR ''@'' \<in> set s
      then [takeWhile (\<lambda>c. c \<noteq> CHR ''@'') s, tl (dropWhile (\<lambda>c. c \<noteq> CHR ''@'') s)]
      else [s])"

text \<open>
  \<open>parts := append(strings.SplitN(pathVer, "@", 2), ""); return NewModuleId(parts[0], parts[1])\<close>.
  The appended empty string makes index 1 always in range.
\<close>

definition ParseModuleId :: "string \<Rightarrow> ModuleId" where
  "ParseModuleId pathVer =
     (let parts = SplitN_at_2 pathVer @ [''''] in NewModuleId (parts ! 0) (parts ! 1))"

text \<open>\<open>strings.Compare\<close>: bytewise lexicographic three-way comparison.\<close>

definition strings_Compare :: "string \<Rightarrow> string \<Rightarrow> int" where
  "strings_Compare a b = (if a = b then 0 else if a < b then - 1 else 1)"

section \<open>golang.org/x/mod/semver\<close>

text \<open>
  The package compares versions with \<open>semver.Compare\<close> of the library
  \<open>golang.org/x/mod/semver\<close>, which is not part of this repository. It is modelled here
  from the library's documented behaviour and algorithm: a version is parsed into
  \<open>vMAJOR[.MINOR[.PATCH[-PRERELEASE][+BUILD]]]\<close>; an invalid version is less than every
  valid one and equal to every invalid one; missing minor and patch count as \<open>0\<close>; build
  metadata is ignored; numbers compare numerically, prerelease identifiers as the
  Semantic Versioning precedence rules say.
\<close>

definition isDigit :: "char \<Rightarrow> bool" where
  "isDigit c = (CHR ''0'' \<le> c \<and> c \<le> CHR ''9'')"

definition isIdentChar :: "char \<Rightarrow> bool" where
  "isIdentChar c =
     (CHR ''A'' \<le> c \<and> c \<le> CHR ''Z'' \<or> CHR ''a'' \<le> c \<and> c \<le> CHR ''z'' \<or>
      CHR ''0'' \<le> c \<and> c \<le> CHR ''9'' \<or> c = CHR ''-'')"

definition isNum :: "string \<Rightarrow> bool" where
  "isNum v = list_all isDigit v"

definition isBadNum :: "string \<Rightarrow> bool" where
  "isBadNum v = (list_all isDigit v \<and> 1 < length v \<and> hd v = CHR ''0'')"

record parsed =
  major :: string
  minor :: string
  patch :: string
  short :: string
  prerelease :: string
  build :: string

text \<open>\<open>parseInt\<close>: a maximal run of digits without a leading zero, and the rest.\<close>

definition parseInt :: "string \<Rightarrow> (string \<times> string) option" where
  "parseInt v =
     (if v = [] then None
      else if \<not> isDigit (hd v) then None
      else let t = takeWhile isDigit v in
        if hd v = CHR ''0'' \<and> length t \<noteq> 1 then None
        else Some (t, drop (length t) v))"

text \<open>
  The scanning loop of \<open>parsePrerelease\<close>: \<open>acc\<close> is the consumed prefix \<open>v[:i]\<close>,
  \<open>cur\<close> the identifier being read \<open>v[start:i]\<close>, the third argument \<open>v[i:]\<close>.
\<close>

fun parsePrereleaseLoop :: "string \<Rightarrow> string \<Rightarrow> string \<Rightarrow> (string \<times> string) option" where
  "parsePrereleaseLoop acc cur [] =
     (if cur = [] \<or> isBadNum cur then None else Some (acc, []))"
| "parsePrereleaseLoop acc cur (c # cs) =
     (if c = CHR ''+'' then (if cur = [] \<or> isBadNum cur then None else Some (acc, c # cs))
      else if \<not> isIdentChar c \<and> c \<noteq> CHR ''.'' then None
      else if c = CHR ''.'' then
        (if cur = [] \<or> isBadNum cur then None else parsePrereleaseLoop (acc @ [c]) [] cs)
      else parsePrereleaseLoop (acc @ [c]) (cur @ [c]) cs)"

definition parsePrerelease :: "string \<Rightarrow> (string \<times> string) option" where
  "parsePrerelease v =
     (if v = [] \<or> hd v \<noteq> CHR ''-'' then None else parsePrereleaseLoop [hd v] [] (tl v))"

fun parseBuildLoop :: "string \<Rightarrow> string \<Rightarrow> string \<Rightarrow> (string \<times> string) option" where
  "parseBuildLoop acc cur [] = (if cur = [] then None else Some (acc, []))"
| "parseBuildLoop acc cur (c # cs) =
     (if \<not> isIdentChar c \<and> c \<noteq> CHR ''.'' then None
      else if c = CHR ''.'' then
        (if cur = [] then None else parseBuildLoop (acc @ [c]) [] cs)
      else parseBuildLoop (acc @ [c]) (cur @ [c]) cs)"

definition parseBuild :: "string \<Rightarrow> (string \<times> string) option" where
  "parseBuild v =
     (if v = [] \<or> hd v \<noteq> CHR ''+'' then None else parseBuildLoop [hd v] [] (tl v))"

definition parse :: "string \<Rightarrow> parsed option" where
  "parse v =
     (if v = [] \<or> hd v \<noteq> CHR ''v'' then None
      else case parseInt (tl v) of None \<Rightarrow> None | Some (ma, v1) \<Rightarrow>
        if v1 = [] then
          Some \<lparr>major = ma, minor = ''0'', patch = ''0'', short = ''.0.0'',
                prerelease = [], build = []\<rparr>
        else if hd v1 \<noteq> CHR ''.'' then None
        else case parseInt (tl v1) of None \<Rightarrow> None | Some (mi, v2) \<Rightarrow>
          if v2 = [] then
            Some \<lparr>major = ma, minor = mi, patch = ''0'', short = ''.0'',
                  prerelease = [], build = []\<rparr>
          else if hd v2 \<noteq> CHR ''.'' then None
          else case parseInt (tl v2) of None \<Rightarrow> None | Some (pa, v3) \<Rightarrow>
            (case (if v3 \<noteq> [] \<and> hd v3 = CHR ''-'' then parsePrerelease v3 else Some ([], v3)) of
               None \<Rightarrow> None
             | Some (pre, v4) \<Rightarrow>
               (case (if v4 \<noteq> [] \<and> hd v4 = CHR ''+'' then parseBuild v4 else Some ([], v4)) of
                  None \<Rightarrow> None
                | Some (bld, v5) \<Rightarrow>
                    if v5 \<noteq> [] then None
                    else Some \<lparr>major = ma, minor = mi, patch = pa, short = [],
                               prerelease = pre, build = bld\<rparr>)))"

text \<open>
  \<open>compareInt\<close> compares two digit strings without leading zeros numerically: first by
  length, then bytewise.
\<close>

definition compareInt :: "string \<Rightarrow> string \<Rightarrow> int" where
  "compareInt x y =
     (if x = y then 0
      else if length x < length y then - 1
      else if length y < length x then 1
      else if x < y then - 1 else 1)"

definition nextIdent :: "string \<Rightarrow> string \<times> string" where
  "nextIdent x = (takeWhile (\<lambda>c. c \<noteq> CHR ''.'') x, dropWhile (\<lambda>c. c \<noteq> CHR ''.'') x)"

text \<open>How two different prerelease identifiers compare.\<close>

definition compareIdent :: "string \<Rightarrow> string \<Rightarrow> int" where
  "compareIdent dx dy =
     (let ix = isNum dx; iy = isNum dy in
      if ix \<noteq> iy then (if ix then - 1 else 1)
      else if ix \<and> length dx < length dy then - 1
      else if ix \<and> length dy < length dx then 1
      else if dx < dy then - 1 else 1)"

text \<open>
  The loop of \<open>comparePrerelease\<close>: as long as both strings are non-empty, skip the
  separator, read one identifier of each and compare them.
\<close>

function comparePrereleaseLoop :: "string \<Rightarrow> string \<Rightarrow> int" where
  "comparePrereleaseLoop x y =
     (if x \<noteq> [] \<and> y \<noteq> [] then
        (if fst (nextIdent (tl x)) \<noteq> fst (nextIdent (tl y))
         then compareIdent (fst (nextIdent (tl x))) (fst (nextIdent (tl y)))
         else comparePrereleaseLoop (snd (nextIdent (tl x))) (snd (nextIdent (tl y))))
      else if x = [] then - 1 else 1)"
  by pat_completeness auto
termination
  by (relation "measure (\<lambda>(x, y). length x)")
     (auto simp: nextIdent_def intro: le_less_trans [OF length_dropWhile_le])

definition comparePrerelease :: "string \<Rightarrow> string \<Rightarrow> int" where
  "comparePrerelease x y =
     (if x = y then 0
      else if x = [] then 1
      else if y = [] then - 1
      else comparePrereleaseLoop x y)"

definition Compare :: "string \<Rightarrow> string \<Rightarrow> int" where
  "Compare v w =
     (case (parse v, parse w) of
        (None, None) \<Rightarrow> 0
      | (None, Some pw) \<Rightarrow> - 1
      | (Some pv, None) \<Rightarrow> 1
      | (Some pv, Some pw) \<Rightarrow>
          if compareInt (major pv) (major pw) \<noteq> 0 then compareInt (major pv) (major pw)
          else if compareInt (minor pv) (minor pw) \<noteq> 0 then compareInt (minor pv) (minor pw)
          else if compareInt (patch pv) (patch pw) \<noteq> 0 then compareInt (patch pv) (patch pw)
          else comparePrerelease (prerelease pv) (prerelease pw))"

section \<open>moduleid.go: the order on module identifiers\<close>

definition ModuleIdCompare :: "ModuleId \<Rightarrow> ModuleId \<Rightarrow> int" where
  "ModuleIdCompare a b =
     (if strings_Compare (Path a) (Path b) \<noteq> 0 then strings_Compare (Path a) (Path b)
      else Compare (Version a) (Version b))"

section \<open>requirement.go, requirementgraph.go\<close>

text \<open>
  A \<open>Requirement\<close> is an interface whose only implementation is the struct
  \<open>requirement{ModuleId}\<close>; a non-nil value is its \<open>ModuleId\<close>, and where the source can
  hold the nil interface the model uses \<open>option\<close>. A \<open>mapset.Set\<close> is a list without
  duplicates (its iteration order is not fixed in Go; the list order stands for one such
  order), a Go map is an association list read with \<open>map_of\<close>. The fields of the structs
  carry a prefix, as record fields are global constants.
\<close>

type_synonym Requirement = ModuleId
type_synonym Dependency = ModuleId

definition set_Add :: "'a \<Rightarrow> 'a list \<Rightarrow> 'a list" where
  "set_Add x xs = (if x \<in> set xs then xs else xs @ [x])"

definition RequirementCompare :: "Requirement \<Rightarrow> Requirement \<Rightarrow> int" where
  "RequirementCompare a b = ModuleIdCompare a b"

text \<open>A \<open>context.Context\<close> is represented by its cancellation cause, if any.\<close>

type_synonym ctx = "failure option"

text \<open>
  The interface \<open>RequirementGraph\<close>: a record of its methods. The methods are functions
  of their arguments: the edges of a graph do not change. A method called with the nil
  \<open>Requirement\<close> panics in both implementations of the package, which the callers below
  write out.
\<close>

record RequirementGraph =
  Root :: "Requirement option"
  Req :: "ModuleId \<Rightarrow> failure + Requirement option"
  Load :: "ctx \<Rightarrow> Requirement \<Rightarrow> failure + unit"
  DirectReqs :: "Requirement \<Rightarrow> failure + Requirement list"
  ImmediateIndirectReqs :: "Requirement \<Rightarrow> failure + Requirement list"

text \<open>\<open>Reqs\<close>: the direct requirements tagged \<open>false\<close>, then the indirect ones tagged \<open>true\<close>.\<close>

definition Reqs :: "RequirementGraph \<Rightarrow> Requirement \<Rightarrow> failure + (Requirement \<times> bool) list" where
  "Reqs rg r =
     (case DirectReqs rg r of
        Inl f \<Rightarrow> Inl f
      | Inr ds \<Rightarrow>
          (case ImmediateIndirectReqs rg r of
             Inl f \<Rightarrow> Inl f
           | Inr is \<Rightarrow> Inr (map (\<lambda>m. (m, False)) ds @ map (\<lambda>m. (m, True)) is)))"

text \<open>
  \<open>semver.Canonical\<close> and \<open>semver.Build\<close>, and \<open>ModuleId.Check\<close>. The path and version
  check \<open>module.Check\<close> of \<open>golang.org/x/mod/module\<close> is not part of this repository; it
  is the parameter \<open>module_Check\<close>.
\<close>

definition Canonical :: "string \<Rightarrow> string" where
  "Canonical v =
     (case parse v of
        None \<Rightarrow> []
      | Some p \<Rightarrow>
          if build p \<noteq> [] then take (length v - length (build p)) v
          else if short p \<noteq> [] then v @ short p
          else v)"

definition Build :: "string \<Rightarrow> string" where
  "Build v = (case parse v of None \<Rightarrow> [] | Some p \<Rightarrow> build p)"

type_synonym module_check = "string \<Rightarrow> string \<Rightarrow> failure option"

definition Check :: "module_check \<Rightarrow> ModuleId \<Rightarrow> failure option" where
  "Check module_Check mId =
     (let got = Version mId in
      case module_Check (Path mId) got of
        Some err \<Rightarrow> Some err
      | None \<Rightarrow>
          if got = [] then Some (Error ''version is the empty string'')
          else if got \<noteq> Canonical got @ Build got then Some (Error ''version is non-canonical'')
          else None)"

text \<open>The eager in-memory graph \<open>requirementGraph\<close> and its methods.\<close>

record requirementGraphReqs =
  reqs_d :: "Requirement list"
  reqs_i :: "Requirement list"

record requirementGraph =
  rg_root :: "Requirement option"
  rg_reqs :: "(Requirement \<times> requirementGraphReqs) list"

definition requirementGraph_Root :: "requirementGraph \<Rightarrow> Requirement option" where
  "requirementGraph_Root rg = rg_root rg"

definition requirementGraph_Req ::
  "module_check \<Rightarrow> requirementGraph \<Rightarrow> ModuleId \<Rightarrow> failure + Requirement option" where
  "requirementGraph_Req module_Check rg mId =
     (case Check module_Check mId of
        Some err \<Rightarrow> Inl (Panic ''Check failed'')
      | None \<Rightarrow> if map_of (rg_reqs rg) mId = None then Inr None else Inr (Some mId))"

text \<open>\<open>Load\<close> ignores its context; it panics for a module that is not a key of \<open>reqs\<close>.\<close>

definition requirementGraph_Load :: "requirementGraph \<Rightarrow> ctx \<Rightarrow> Requirement \<Rightarrow> failure + unit" where
  "requirementGraph_Load rg c m =
     (case map_of (rg_reqs rg) m of
        None \<Rightarrow> Inl (Panic ''module is not in this requirement graph'')
      | Some r \<Rightarrow> Inr ())"

definition requirementGraph_DirectReqs ::
  "requirementGraph \<Rightarrow> Requirement \<Rightarrow> failure + Requirement list" where
  "requirementGraph_DirectReqs rg m =
     (case map_of (rg_reqs rg) m of
        None \<Rightarrow> Inl (Panic ''nil pointer dereference'')
      | Some r \<Rightarrow> Inr (reqs_d r))"

definition requirementGraph_ImmediateIndirectReqs ::
  "requirementGraph \<Rightarrow> Requirement \<Rightarrow> failure + Requirement list" where
  "requirementGraph_ImmediateIndirectReqs rg m =
     (case map_of (rg_reqs rg) m of
        None \<Rightarrow> Inl (Panic ''nil pointer dereference'')
      | Some r \<Rightarrow> Inr (reqs_i r))"

text \<open>\<open>var _ RequirementGraph = (*requirementGraph)(nil)\<close>: the struct as the interface.\<close>

definition asRequirementGraph :: "module_check \<Rightarrow> requirementGraph \<Rightarrow> RequirementGraph" where
  "asRequirementGraph module_Check rg =
     \<lparr>Root = requirementGraph_Root rg,
      Req = requirementGraph_Req module_Check rg,
      Load = requirementGraph_Load rg,
      DirectReqs = requirementGraph_DirectReqs rg,
      ImmediateIndirectReqs = requirementGraph_ImmediateIndirectReqs rg\<rparr>"

section \<open>dependencygraph.go\<close>

record dependencyGraph =
  dg_rg :: RequirementGraph
  dg_sel :: "(string \<times> Dependency) list"
  dg_surprise :: "(Dependency \<times> Dependency list) list"

definition Selected :: "dependencyGraph \<Rightarrow> ModuleId \<Rightarrow> Dependency option" where
  "Selected dg req =
     (case map_of (dg_sel dg) (Path req) of
        None \<Rightarrow> None
      | Some d \<Rightarrow> if Compare (Version d) (Version req) < 0 then None else Some d)"

text \<open>
  \<open>DirectDeps\<close> yields, for each direct requirement of the dependency's requirement, the
  selected dependency; it panics when the dependency has no requirement in the graph or
  a requirement is not satisfied. Every caller in the package consumes the whole
  sequence, so the model returns it as a list.
\<close>

fun selectAll :: "dependencyGraph \<Rightarrow> Requirement list \<Rightarrow> failure + Dependency list" where
  "selectAll dg [] = Inr []"
| "selectAll dg (rr # rrs) =
     (case Selected dg rr of
        None \<Rightarrow> Inl (Panic ''requirement not satisfied by selection of dependencies'')
      | Some d \<Rightarrow> (case selectAll dg rrs of Inl f \<Rightarrow> Inl f | Inr ds \<Rightarrow> Inr (d # ds)))"

definition DirectDeps :: "dependencyGraph \<Rightarrow> Dependency \<Rightarrow> failure + Dependency list" where
  "DirectDeps dg m =
     (case Req (dg_rg dg) m of
        Inl f \<Rightarrow> Inl f
      | Inr None \<Rightarrow> Inl (Panic ''no corresponding requirement for dependency'')
      | Inr (Some r) \<Rightarrow>
          (case DirectReqs (dg_rg dg) r of
             Inl f \<Rightarrow> Inl f
           | Inr rrs \<Rightarrow> selectAll dg rrs))"

text \<open>
  \<open>SurpriseDeps\<close> is \<open>mapset.Elements(dg.surprise[m])\<close>. For a dependency without an entry
  the map yields the nil set, and iterating over its elements dereferences nil.
\<close>

definition SurpriseDeps :: "dependencyGraph \<Rightarrow> Dependency \<Rightarrow> failure + Dependency list" where
  "SurpriseDeps dg m =
     (case map_of (dg_surprise dg) m of
        None \<Rightarrow> Inl (Panic ''nil pointer dereference'')
      | Some s \<Rightarrow> Inr s)"

text \<open>
  \<open>computeSurpriseDeps\<close>. The first loop resolves the requirements of \<open>r\<close>: an indirect
  one adds its dependency to \<open>needles\<close>, a direct one appends it to \<open>haystack\<close> and adds
  it to \<open>seen\<close>.
\<close>

fun seedLoop ::
  "dependencyGraph \<Rightarrow> (Requirement \<times> bool) list \<Rightarrow>
   Dependency list \<times> Dependency list \<times> Dependency list \<Rightarrow>
   failure + (Dependency list \<times> Dependency list \<times> Dependency list)" where
  "seedLoop dg [] st = Inr st"
| "seedLoop dg ((dr, ind) # rest) (needles, haystack, seen) =
     (case Selected dg dr of
        None \<Rightarrow> Inl (Error ''requirement not satisfied by the selection of dependencies'')
      | Some dd \<Rightarrow>
          if ind then seedLoop dg rest (set_Add dd needles, haystack, seen)
          else seedLoop dg rest (needles, haystack @ [dd], set_Add dd seen))"

text \<open>The inner loop of the search: \<open>if seen.Add(md) { haystack = append(haystack, md) }\<close>.\<close>

fun addNew :: "'a list \<Rightarrow> 'a list \<times> 'a list \<Rightarrow> 'a list \<times> 'a list" where
  "addNew [] (haystack, seen) = (haystack, seen)"
| "addNew (md # mds) (haystack, seen) =
     (if md \<in> set seen then addNew mds (haystack, seen)
      else addNew mds (haystack @ [md], seen @ [md]))"

lemma addNew_set:
  "set (snd (addNew mds (h, s))) = set s \<union> set mds \<and>
   set (fst (addNew mds (h, s))) = set h \<union> (set mds - set s)"
  by (induction mds arbitrary: h s) auto

lemma addNew_measure:
  "finite U \<Longrightarrow> set mds \<subseteq> U \<Longrightarrow>
   2 * card (U - set (snd (addNew mds (h, s)))) + length (fst (addNew mds (h, s)))
     \<le> 2 * card (U - set s) + length h"
proof (induction mds arbitrary: h s)
  case Nil
  then show ?case by simp
next
  case (Cons md mds)
  show ?case
  proof (cases "md \<in> set s")
    case True
    then show ?thesis using Cons by simp
  next
    case False
    have mdU: "md \<in> U - set s" using Cons.prems False by simp
    have eq: "U - set (s @ [md]) = (U - set s) - {md}" by auto
    have c: "card (U - set (s @ [md])) = card (U - set s) - 1"
      unfolding eq using mdU Cons.prems(1) by simp
    have pos: "0 < card (U - set s)"
      using mdU Cons.prems(1) by (metis card_gt_0_iff empty_iff finite_Diff)
    have "2 * card (U - set (snd (addNew mds (h @ [md], s @ [md]))))
            + length (fst (addNew mds (h @ [md], s @ [md])))
          \<le> 2 * card (U - set (s @ [md])) + length (h @ [md])"
      using Cons.IH [of "h @ [md]" "s @ [md]"] Cons.prems by simp
    also have "\<dots> \<le> 2 * card (U - set s) + length h" using c pos by simp
    finally show ?thesis using False by simp
  qed
qed

lemma Selected_in_sel: "Selected dg r = Some d \<Longrightarrow> d \<in> snd ` set (dg_sel dg)"
  by (auto simp: Selected_def split: option.splits if_splits dest!: map_of_SomeD
           intro: rev_image_eqI)

lemma selectAll_in_sel: "selectAll dg rrs = Inr ds \<Longrightarrow> set ds \<subseteq> snd ` set (dg_sel dg)"
proof (induction rrs arbitrary: ds)
  case Nil
  then show ?case by simp
next
  case (Cons rr rrs)
  then show ?case
    by (auto split: option.splits sum.splits dest: Selected_in_sel)
qed

lemma DirectDeps_in_sel: "DirectDeps dg m = Inr mds \<Longrightarrow> set mds \<subseteq> snd ` set (dg_sel dg)"
  unfolding DirectDeps_def
  by (auto split: sum.splits option.splits dest: selectAll_in_sel)

text \<open>
  The search loop: pop the head of \<open>haystack\<close>, remove it from \<open>needles\<close>, stop when
  \<open>needles\<close> is empty, otherwise append its direct dependencies not seen before.
\<close>

function bfsLoop ::
  "dependencyGraph \<Rightarrow> Dependency list \<Rightarrow> Dependency list \<Rightarrow> Dependency list \<Rightarrow>
   failure + Dependency list" where
  "bfsLoop dg [] seen needles = Inr needles"
| "bfsLoop dg (m # haystack) seen needles =
     (if removeAll m needles = [] then Inr []
      else case DirectDeps dg m of
             Inl f \<Rightarrow> Inl f
           | Inr mds \<Rightarrow>
               bfsLoop dg (fst (addNew mds (haystack, seen))) (snd (addNew mds (haystack, seen)))
                 (removeAll m needles))"
  by pat_completeness auto
termination
proof (relation "measure (\<lambda>(dg, haystack, seen, needles).
          2 * card (snd ` set (dg_sel dg) - set seen) + length haystack)")
  show "wf (measure (\<lambda>(dg, haystack, seen, needles).
          2 * card (snd ` set (dg_sel dg) - set seen) + length haystack))"
    by simp
next
  fix dg :: dependencyGraph and m haystack seen needles mds
  assume "DirectDeps dg m = Inr mds"
  then have "set mds \<subseteq> snd ` set (dg_sel dg)" by (rule DirectDeps_in_sel)
  then have "2 * card (snd ` set (dg_sel dg) - set (snd (addNew mds (haystack, seen))))
               + length (fst (addNew mds (haystack, seen)))
             \<le> 2 * card (snd ` set (dg_sel dg) - set seen) + length haystack"
    by (intro addNew_measure) simp_all
  then show "((dg, fst (addNew mds (haystack, seen)), snd (addNew mds (haystack, seen)),
               removeAll m needles), dg, m # haystack, seen, needles)
             \<in> measure (\<lambda>(dg, haystack, seen, needles).
                  2 * card (snd ` set (dg_sel dg) - set seen) + length haystack)"
    by simp
qed

definition computeSurpriseDeps ::
  "module_check \<Rightarrow> ctx \<Rightarrow> RequirementGraph \<Rightarrow> dependencyGraph \<Rightarrow> Dependency \<Rightarrow>
   failure + Dependency list" where
  "computeSurpriseDeps module_Check c rg dg d =
     (case c of
        Some err \<Rightarrow> Inl err
      | None \<Rightarrow>
          (case Check module_Check d of
             Some err \<Rightarrow> Inl err
           | None \<Rightarrow>
               (case Req rg d of
                  Inl f \<Rightarrow> Inl f
                | Inr None \<Rightarrow> Inl (Panic ''nil Requirement'')
                | Inr (Some r) \<Rightarrow>
                    (case Load rg c r of
                       Inl f \<Rightarrow> Inl f
                     | Inr u \<Rightarrow>
                         (case Reqs rg r of
                            Inl f \<Rightarrow> Inl f
                          | Inr rs \<Rightarrow>
                              (case seedLoop dg rs ([], [], []) of
                                 Inl f \<Rightarrow> Inl f
                               | Inr (needles, haystack, seen) \<Rightarrow>
                                   bfsLoop dg haystack (set_Add d seen) needles))))))"

section \<open>Order keys for the comparisons\<close>

text \<open>
  Devices of the proofs, not part of the program: each comparison function of the
  program is shown to be the three-way comparison \<open>cmp3\<close> of keys in a linear order.
\<close>

definition cmp3 :: "'a::linorder \<Rightarrow> 'a \<Rightarrow> int" where
  "cmp3 a b = (if a = b then 0 else if a < b then - 1 else 1)"

definition intKey :: "string \<Rightarrow> nat \<times> string" where
  "intKey x = (length x, x)"

definition identKey :: "string \<Rightarrow> bool \<times> nat \<times> string" where
  "identKey dx = (\<not> isNum dx, if isNum dx then length dx else 0, dx)"

function preIdents :: "string \<Rightarrow> string list" where
  "preIdents x =
     (if x = [] then [] else fst (nextIdent (tl x)) # preIdents (snd (nextIdent (tl x))))"
  by pat_completeness auto

termination
  by (relation "measure length")
     (auto simp: nextIdent_def intro: le_less_trans [OF length_dropWhile_le])

definition preKey :: "string \<Rightarrow> bool \<times> (bool \<times> nat \<times> string) list" where
  "preKey x = (x = [], map identKey (preIdents x))"

definition verKey ::
  "string \<Rightarrow> ((nat \<times> string) \<times> (nat \<times> string) \<times> (nat \<times> string) \<times>
              bool \<times> (bool \<times> nat \<times> string) list) option" where
  "verKey v =
     map_option (\<lambda>p. (intKey (major p), intKey (minor p), intKey (patch p), preKey (prerelease p)))
       (parse v)"

definition validPre :: "string \<Rightarrow> bool" where
  "validPre x = (x = [] \<or> hd x = CHR ''-'')"

definition idKey ::
  "ModuleId \<Rightarrow> string \<times> ((nat \<times> string) \<times> (nat \<times> string) \<times> (nat \<times> string) \<times>
              bool \<times> (bool \<times> nat \<times> string) list) option" where
  "idKey a = (Path a, verKey (Version a))"

text \<open>
  The last stage of each resolver (\<open>ResolveGo\<close>, \<open>ResolveMvs\<close>, \<open>ResolveSat\<close>): for every
  selected dependency, compute its surprise dependencies and store them. The goroutines
  of the source only read the graph and the selection, so their results do not depend on
  the order; any failure fails the resolver.
\<close>

fun surpriseLoop ::
  "module_check \<Rightarrow> ctx \<Rightarrow> RequirementGraph \<Rightarrow> dependencyGraph \<Rightarrow> Dependency list \<Rightarrow>
   failure + dependencyGraph" where
  "surpriseLoop module_Check c rg dg [] = Inr dg"
| "surpriseLoop module_Check c rg dg (d # ds) =
     (case computeSurpriseDeps module_Check c rg dg d of
        Inl f \<Rightarrow> Inl f
      | Inr surprise \<Rightarrow>
          surpriseLoop module_Check c rg
            (dg\<lparr>dg_surprise := AList.update d surprise (dg_surprise dg)\<rparr>) ds)"

text \<open>The edges of the dependency graph that \<open>DirectDeps\<close> yields.\<close>

text \<open>
  A stand-in for \<open>module.Check\<close> that accepts every path and version, for the concrete
  examples below.
\<close>

definition accept_all :: module_check where
  "accept_all p v = None"

section \<open>The concurrent graph walker \<open>walkGraph\<close>\<close>

text \<open>
  \<open>walkGraph\<close> runs one goroutine per queue entry, per node and per edge, and a main loop
  that receives the queue entries. The model is an interleaving of atomic steps: a
  state holds the shared variables and the goroutines that have not finished, a
  \<open>choice\<close> names the goroutine that takes its next step, and a run is a list of choices
  (a schedule). Every statement about every run is a statement about every schedule.

  The callbacks may read and write state of their own (the variables their closures
  capture); the model threads it as \<open>cb\<close>. A callback takes effect atomically when it
  returns.
\<close>

datatype ('n, 'e) event =
    NodeVisitCall 'n
  | NodeVisitReturn 'n bool
  | LoadCall 'n
  | EdgesCall 'n
  | EdgeVisitCall 'n 'n 'e

text \<open>Where a node goroutine stands: not yet run, inside \<open>nodeVisit\<close>, or about to descend.\<close>

datatype stage = Spawned | Visiting | Loading

text \<open>The parameters of \<open>walkGraph\<close>; \<open>zeroN\<close> and \<open>zeroE\<close> are the zero values of the types.\<close>

record ('n, 'e, 's) walkParams =
  zeroN :: 'n
  zeroE :: 'e
  nodeVisit :: "(ctx \<Rightarrow> 'n \<Rightarrow> 's \<Rightarrow> (failure + bool) \<times> 's) option"
  load :: "(ctx \<Rightarrow> 'n \<Rightarrow> failure + unit) option"
  edges :: "'n \<Rightarrow> failure + ('n \<times> 'e) list"
  edgeVisit :: "(ctx \<Rightarrow> 'n \<Rightarrow> 'n \<Rightarrow> 'e \<Rightarrow> 's \<Rightarrow> failure option \<times> 's) option"

text \<open>
  The state. \<open>seen\<close> holds the keys of the map \<open>seen\<close>, \<open>ready\<close> the nodes whose channel is
  closed. \<open>senders\<close> are the goroutines of \<open>enqueue\<close> blocked on \<open>q <- qe\<close>, \<open>nodeTasks\<close>
  and \<open>edgeTasks\<close> the goroutines started by \<open>process\<close>; an edge task remembers whether
  \<open>seen[qe.p]\<close> was a channel when it was read. \<open>cancelled\<close> is the cause of the context
  of the group, \<open>firstErr\<close> the error that \<open>gr.Wait\<close> returns. The counters \<open>nNodes\<close>,
  \<open>nEdges\<close> and \<open>nDescends\<close> are only logged and are left out.
\<close>

record ('n, 'e, 's) walk =
  seen :: "'n list"
  ready :: "'n list"
  senders :: "('n \<times> 'n \<times> 'e) list"
  nodeTasks :: "('n \<times> stage) list"
  edgeTasks :: "(('n \<times> 'n \<times> 'e) \<times> bool) list"
  inflight :: int
  qclosed :: bool
  looping :: bool
  cancelled :: ctx
  firstErr :: "failure option"
  panicked :: "failure option"
  cb :: 's
  trace :: "('n, 'e) event list"

text \<open>\<open>inflightDone\<close>: decrement, and close the queue at zero (closing it twice panics).\<close>

definition inflightDone :: "('n, 'e, 's) walk \<Rightarrow> ('n, 'e, 's) walk" where
  "inflightDone w =
     (if inflight w - 1 = 0 then
        (if qclosed w then w\<lparr>inflight := 0, panicked := Some (Panic ''close of closed channel'')\<rparr>
         else w\<lparr>inflight := 0, qclosed := True\<rparr>)
      else w\<lparr>inflight := inflight w - 1\<rparr>)"

text \<open>A goroutine of the group returns the error \<open>e\<close>: the first one is kept and cancels the context.\<close>

definition fail :: "failure \<Rightarrow> ('n, 'e, 's) walk \<Rightarrow> ('n, 'e, 's) walk" where
  "fail e w =
     w\<lparr>firstErr := (case firstErr w of None \<Rightarrow> Some e | Some e0 \<Rightarrow> Some e0),
       cancelled := (case cancelled w of None \<Rightarrow> Some e | Some e0 \<Rightarrow> Some e0)\<rparr>"

definition panic :: "failure \<Rightarrow> ('n, 'e, 's) walk \<Rightarrow> ('n, 'e, 's) walk" where
  "panic e w = w\<lparr>panicked := Some e\<rparr>"

text \<open>The state after \<open>enqueue(qEnt{p: zeroN, m: start, color: zeroE})\<close> and the start of the main loop.\<close>

definition initWalk :: "('n, 'e, 's) walkParams \<Rightarrow> ctx \<Rightarrow> 'n \<Rightarrow> 's \<Rightarrow> ('n, 'e, 's) walk" where
  "initWalk ps c start s =
     \<lparr>seen = [], ready = [], senders = [(zeroN ps, start, zeroE ps)], nodeTasks = [],
      edgeTasks = [], inflight = 1, qclosed = False, looping = True, cancelled = c,
      firstErr = None, panicked = None, cb = s, trace = []\<rparr>"

text \<open>
  The main loop receives \<open>qe\<close> from a sender and runs \<open>process(qe)\<close>: a node not seen before
  gets a channel and a node goroutine; unless \<open>edgeVisit\<close> is nil or the parent is the zero
  node, an edge goroutine is started.
\<close>

definition receive ::
  "('n, 'e, 's) walkParams \<Rightarrow> 'n \<times> 'n \<times> 'e \<Rightarrow> ('n, 'e, 's) walk \<Rightarrow> ('n, 'e, 's) walk option" where
  "receive ps qe w =
     (if qe \<notin> set (senders w) then None
      else if qclosed w then Some (panic (Panic ''send on closed channel'') w)
      else if \<not> looping w then None
      else
        let w1 = w\<lparr>senders := remove1 qe (senders w)\<rparr>;
            w2 = (if fst (snd qe) \<in> set (seen w1) then w1
                  else w1\<lparr>seen := seen w1 @ [fst (snd qe)], inflight := inflight w1 + 1,
                          nodeTasks := nodeTasks w1 @ [(fst (snd qe), Spawned)]\<rparr>);
            w3 = (if edgeVisit ps \<noteq> None \<and> fst qe \<noteq> zeroN ps
                  then w2\<lparr>inflight := inflight w2 + 1,
                          edgeTasks := edgeTasks w2 @ [(qe, fst qe \<in> set (seen w2))]\<rparr>
                  else w2)
        in Some (inflightDone w3))"

text \<open>A sender, an edge goroutine or the main loop takes the branch \<open><-ctx.Done()\<close>.\<close>

definition sendAbort :: "'n \<times> 'n \<times> 'e \<Rightarrow> ('n, 'e, 's) walk \<Rightarrow> ('n, 'e, 's) walk option" where
  "sendAbort qe w =
     (case cancelled w of
        None \<Rightarrow> None
      | Some cause \<Rightarrow>
          if qe \<notin> set (senders w) then None
          else Some (fail cause (inflightDone (w\<lparr>senders := remove1 qe (senders w)\<rparr>))))"

definition edgeAbort :: "('n \<times> 'n \<times> 'e) \<times> bool \<Rightarrow> ('n, 'e, 's) walk \<Rightarrow> ('n, 'e, 's) walk option" where
  "edgeAbort t w =
     (case cancelled w of
        None \<Rightarrow> None
      | Some cause \<Rightarrow>
          if t \<notin> set (edgeTasks w) then None
          else Some (fail cause (inflightDone (w\<lparr>edgeTasks := remove1 t (edgeTasks w)\<rparr>))))"

definition loopAbort :: "('n, 'e, 's) walk \<Rightarrow> ('n, 'e, 's) walk option" where
  "loopAbort w =
     (case cancelled w of
        None \<Rightarrow> None
      | Some cause \<Rightarrow> if \<not> looping w then None else Some (fail cause (w\<lparr>looping := False\<rparr>)))"

text \<open>The main loop finds the queue closed and returns nil.\<close>

definition loopExit :: "('n, 'e, 's) walk \<Rightarrow> ('n, 'e, 's) walk option" where
  "loopExit w = (if looping w \<and> qclosed w then Some (w\<lparr>looping := False\<rparr>) else None)"

text \<open>
  A node goroutine starts: with \<open>nodeVisit\<close> nil it closes the channel at once and will
  descend, otherwise it calls \<open>nodeVisit\<close>.
\<close>

definition visitCall :: "('n, 'e, 's) walkParams \<Rightarrow> 'n \<Rightarrow> ('n, 'e, 's) walk \<Rightarrow> ('n, 'e, 's) walk option" where
  "visitCall ps m w =
     (if (m, Spawned) \<notin> set (nodeTasks w) then None
      else case nodeVisit ps of
        None \<Rightarrow>
          Some (w\<lparr>nodeTasks := remove1 (m, Spawned) (nodeTasks w) @ [(m, Loading)],
                  ready := ready w @ [m]\<rparr>)
      | Some nv \<Rightarrow>
          Some (w\<lparr>nodeTasks := remove1 (m, Spawned) (nodeTasks w) @ [(m, Visiting)],
                  trace := trace w @ [NodeVisitCall m]\<rparr>))"

text \<open>
  \<open>nodeVisit\<close> returns: an error ends the goroutine; otherwise the channel is closed and
  the goroutine goes on to descend, or ends when \<open>descend\<close> is false.
\<close>

definition visitReturn :: "('n, 'e, 's) walkParams \<Rightarrow> 'n \<Rightarrow> ('n, 'e, 's) walk \<Rightarrow> ('n, 'e, 's) walk option" where
  "visitReturn ps m w =
     (if (m, Visiting) \<notin> set (nodeTasks w) then None
      else case nodeVisit ps of
        None \<Rightarrow> None
      | Some nv \<Rightarrow>
          (case nv (cancelled w) m (cb w) of
             (Inl (Panic x), s') \<Rightarrow> Some (panic (Panic x) (w\<lparr>cb := s'\<rparr>))
           | (Inl (Error x), s') \<Rightarrow>
               Some (fail (Error x)
                 (inflightDone (w\<lparr>cb := s', nodeTasks := remove1 (m, Visiting) (nodeTasks w)\<rparr>)))
           | (Inr descend, s') \<Rightarrow>
               (let w1 = w\<lparr>cb := s', trace := trace w @ [NodeVisitReturn m descend],
                            ready := ready w @ [m]\<rparr>
                in if descend
                   then Some (w1\<lparr>nodeTasks := remove1 (m, Visiting) (nodeTasks w) @ [(m, Loading)]\<rparr>)
                   else Some (inflightDone
                          (w1\<lparr>nodeTasks := remove1 (m, Visiting) (nodeTasks w)\<rparr>)))))"

text \<open>
  The goroutine descends: it calls \<open>load\<close> (unless nil) and enqueues every edge that
  \<open>edges\<close> yields, each in a sender goroutine of its own.
\<close>

definition enqueueEdges :: "('n, 'e, 's) walkParams \<Rightarrow> 'n \<Rightarrow> ('n, 'e, 's) walk \<Rightarrow> ('n, 'e, 's) walk" where
  "enqueueEdges ps m w =
     (case edges ps m of
        Inl f \<Rightarrow> panic f w
      | Inr es \<Rightarrow>
          inflightDone
            (w\<lparr>senders := senders w @ map (\<lambda>(child, color). (m, child, color)) es,
               inflight := inflight w + int (length es),
               trace := trace w @ [EdgesCall m]\<rparr>))"

definition descend :: "('n, 'e, 's) walkParams \<Rightarrow> 'n \<Rightarrow> ('n, 'e, 's) walk \<Rightarrow> ('n, 'e, 's) walk option" where
  "descend ps m w =
     (if (m, Loading) \<notin> set (nodeTasks w) then None
      else
        let w1 = w\<lparr>nodeTasks := remove1 (m, Loading) (nodeTasks w)\<rparr> in
        case load ps of
          None \<Rightarrow> Some (enqueueEdges ps m w1)
        | Some ld \<Rightarrow>
            (case ld (cancelled w) m of
               Inl (Panic x) \<Rightarrow> Some (panic (Panic x) w1)
             | Inl (Error x) \<Rightarrow>
                 Some (fail (Error x) (inflightDone (w1\<lparr>trace := trace w1 @ [LoadCall m]\<rparr>)))
             | Inr u \<Rightarrow> Some (enqueueEdges ps m (w1\<lparr>trace := trace w1 @ [LoadCall m]\<rparr>))))"

text \<open>
  An edge goroutine finds the child's channel closed: it panics unless the parent's
  channel is closed too, and calls \<open>edgeVisit\<close>.
\<close>

definition edgeVisitStep ::
  "('n, 'e, 's) walkParams \<Rightarrow> ('n \<times> 'n \<times> 'e) \<times> bool \<Rightarrow> ('n, 'e, 's) walk \<Rightarrow> ('n, 'e, 's) walk option" where
  "edgeVisitStep ps t w =
     (if t \<notin> set (edgeTasks w) \<or> fst (snd (fst t)) \<notin> set (ready w) then None
      else case edgeVisit ps of
        None \<Rightarrow> None
      | Some ev \<Rightarrow>
          if \<not> (snd t \<and> fst (fst t) \<in> set (ready w))
          then Some (panic (Panic ''parent not visited before visiting edge'') w)
          else
            (case ev (cancelled w) (fst (fst t)) (fst (snd (fst t))) (snd (snd (fst t))) (cb w) of
               (Some (Panic x), s') \<Rightarrow> Some (panic (Panic x) (w\<lparr>cb := s'\<rparr>))
             | (r, s') \<Rightarrow>
                 (let w1 = inflightDone
                        (w\<lparr>cb := s', edgeTasks := remove1 t (edgeTasks w),
                           trace := trace w @
                             [EdgeVisitCall (fst (fst t)) (fst (snd (fst t))) (snd (snd (fst t)))]\<rparr>)
                  in case r of None \<Rightarrow> Some w1 | Some e \<Rightarrow> Some (fail e w1))))"

text \<open>The context passed to \<open>walkGraph\<close> is cancelled from outside.\<close>

definition ctxCancel :: "('n, 'e, 's) walk \<Rightarrow> ('n, 'e, 's) walk option" where
  "ctxCancel w =
     (case cancelled w of
        None \<Rightarrow> Some (w\<lparr>cancelled := Some (Error ''context canceled'')\<rparr>)
      | Some c \<Rightarrow> None)"

datatype ('n, 'e) choice =
    Receive "'n \<times> 'n \<times> 'e"
  | SendAbort "'n \<times> 'n \<times> 'e"
  | EdgeAbort "('n \<times> 'n \<times> 'e) \<times> bool"
  | LoopAbort
  | LoopExit
  | VisitCall 'n
  | VisitReturn 'n
  | Descend 'n
  | EdgeVisit "('n \<times> 'n \<times> 'e) \<times> bool"
  | CtxCancel

text \<open>One step of the chosen goroutine; \<open>None\<close> when it cannot take a step. A panic ends the program.\<close>

fun step :: "('n, 'e, 's) walkParams \<Rightarrow> ('n, 'e) choice \<Rightarrow> ('n, 'e, 's) walk \<Rightarrow> ('n, 'e, 's) walk option" where
  "step ps ch w =
     (if panicked w \<noteq> None then None
      else case ch of
        Receive qe \<Rightarrow> receive ps qe w
      | SendAbort qe \<Rightarrow> sendAbort qe w
      | EdgeAbort t \<Rightarrow> edgeAbort t w
      | LoopAbort \<Rightarrow> loopAbort w
      | LoopExit \<Rightarrow> loopExit w
      | VisitCall m \<Rightarrow> visitCall ps m w
      | VisitReturn m \<Rightarrow> visitReturn ps m w
      | Descend m \<Rightarrow> descend ps m w
      | EdgeVisit t \<Rightarrow> edgeVisitStep ps t w
      | CtxCancel \<Rightarrow> ctxCancel w)"

fun run :: "('n, 'e, 's) walkParams \<Rightarrow> ('n, 'e) choice list \<Rightarrow> ('n, 'e, 's) walk \<Rightarrow> ('n, 'e, 's) walk option" where
  "run ps [] w = Some w"
| "run ps (ch # chs) w = (case step ps ch w of None \<Rightarrow> None | Some w' \<Rightarrow> run ps chs w')"

text \<open>\<open>gr.Wait()\<close> returns when every goroutine of the group has returned.\<close>

definition finished :: "('n, 'e, 's) walk \<Rightarrow> bool" where
  "finished w =
     (\<not> looping w \<and> senders w = [] \<and> nodeTasks w = [] \<and> edgeTasks w = [] \<and> panicked w = None)"

text \<open>
  \<open>walkGraph\<close> under the schedule \<open>sched\<close>: \<open>None\<close> when \<open>sched\<close> is not a complete run of
  the goroutines; otherwise the panic, or the error that \<open>gr.Wait()\<close> returns (\<open>None\<close> for
  nil) with the final state of the callbacks and the calls made.
\<close>

definition walkGraph ::
  "('n, 'e, 's) walkParams \<Rightarrow> ctx \<Rightarrow> 'n \<Rightarrow> 's \<Rightarrow> ('n, 'e) choice list \<Rightarrow>
   (failure + failure option \<times> 's \<times> ('n, 'e) event list) option" where
  "walkGraph ps c start s sched =
     (case run ps sched (initWalk ps c start s) of
        None \<Rightarrow> None
      | Some w \<Rightarrow>
          (case panicked w of
             Some x \<Rightarrow> Some (Inl x)
           | None \<Rightarrow> if \<not> finished w then None else Some (Inr (firstErr w, cb w, trace w))))"

section \<open>requirementgraph.go: walking a requirement graph\<close>

text \<open>
  \<open>WalkRequirementGraph\<close> is \<open>walkGraph\<close> with \<open>rg.Load\<close> and \<open>Reqs(rg, m)\<close>. The node type
  is the interface \<open>Requirement\<close>, whose zero value is nil (\<open>None\<close>); the edge colour is the
  flag \<open>ind\<close>, whose zero value is false. A method of the graph called with the nil
  requirement panics.
\<close>

type_synonym reqChoice = "(Requirement option, bool) choice"
type_synonym reqEvent = "(Requirement option, bool) event"

definition reqLoad :: "RequirementGraph \<Rightarrow> ctx \<Rightarrow> Requirement option \<Rightarrow> failure + unit" where
  "reqLoad rg c m =
     (case m of None \<Rightarrow> Inl (Panic ''nil Requirement'') | Some r \<Rightarrow> Load rg c r)"

definition reqEdges ::
  "RequirementGraph \<Rightarrow> Requirement option \<Rightarrow> failure + (Requirement option \<times> bool) list" where
  "reqEdges rg m =
     (case m of
        None \<Rightarrow> Inl (Panic ''nil Requirement'')
      | Some r \<Rightarrow>
          (case Reqs rg r of
             Inl f \<Rightarrow> Inl f
           | Inr es \<Rightarrow> Inr (map (\<lambda>(child, ind). (Some child, ind)) es)))"

definition reqParams ::
  "RequirementGraph \<Rightarrow>
   (ctx \<Rightarrow> Requirement option \<Rightarrow> 's \<Rightarrow> (failure + bool) \<times> 's) option \<Rightarrow>
   (ctx \<Rightarrow> Requirement option \<Rightarrow> Requirement option \<Rightarrow> bool \<Rightarrow> 's \<Rightarrow> failure option \<times> 's) option \<Rightarrow>
   (Requirement option, bool, 's) walkParams" where
  "reqParams rg nv ev =
     \<lparr>zeroN = None, zeroE = False, nodeVisit = nv, load = Some (reqLoad rg),
      edges = reqEdges rg, edgeVisit = ev\<rparr>"

definition WalkRequirementGraph ::
  "ctx \<Rightarrow> RequirementGraph \<Rightarrow> Requirement option \<Rightarrow>
   (ctx \<Rightarrow> Requirement option \<Rightarrow> 's \<Rightarrow> (failure + bool) \<times> 's) option \<Rightarrow>
   (ctx \<Rightarrow> Requirement option \<Rightarrow> Requirement option \<Rightarrow> bool \<Rightarrow> 's \<Rightarrow> failure option \<times> 's) option \<Rightarrow>
   's \<Rightarrow> reqChoice list \<Rightarrow> (failure + failure option \<times> 's \<times> reqEvent list) option" where
  "WalkRequirementGraph c rg start nv ev s sched = walkGraph (reqParams rg nv ev) c start s sched"

text \<open>
  \<open>allNodes\<close>: the walk with a \<open>nodeVisit\<close> that yields every node to the consumer of the
  sequence, until the consumer stops. The state of the callback is the flag \<open>stop\<close> and
  the state of the consumer; \<open>yield\<close> gives the consumer's answer and its next state.
  The second component of the result is what \<open>done()\<close> returns.
\<close>

definition walkStopErr :: failure where
  "walkStopErr = Error ''stop''"

definition allNodesVisit ::
  "('n \<Rightarrow> 'a \<Rightarrow> bool \<times> 'a) \<Rightarrow> ctx \<Rightarrow> 'n \<Rightarrow> bool \<times> 'a \<Rightarrow> (failure + bool) \<times> (bool \<times> 'a)" where
  "allNodesVisit yield c m st =
     (if fst st then (Inl walkStopErr, (True, snd st))
      else if fst (yield m (snd st)) then (Inr True, (False, snd (yield m (snd st))))
      else (Inl walkStopErr, (True, snd (yield m (snd st)))))"

definition allNodes ::
  "((ctx \<Rightarrow> 'n \<Rightarrow> bool \<times> 'a \<Rightarrow> (failure + bool) \<times> (bool \<times> 'a)) option \<Rightarrow>
    (ctx \<Rightarrow> 'n \<Rightarrow> 'n \<Rightarrow> 'e \<Rightarrow> bool \<times> 'a \<Rightarrow> failure option \<times> (bool \<times> 'a)) option \<Rightarrow>
    bool \<times> 'a \<Rightarrow> 'sched \<Rightarrow> (failure + failure option \<times> (bool \<times> 'a) \<times> 'tr) option) \<Rightarrow>
   ('n \<Rightarrow> 'a \<Rightarrow> bool \<times> 'a) \<Rightarrow> 'a \<Rightarrow> 'sched \<Rightarrow> (failure + 'a \<times> failure option) option" where
  "allNodes walk yield a sched =
     (case walk (Some (allNodesVisit yield)) None (False, a) sched of
        None \<Rightarrow> None
      | Some (Inl p) \<Rightarrow> Some (Inl p)
      | Some (Inr (retErr, st, tr)) \<Rightarrow>
          Some (Inr (snd st, if retErr = Some walkStopErr then None else retErr)))"

definition AllRequirements ::
  "ctx \<Rightarrow> RequirementGraph \<Rightarrow> (Requirement option \<Rightarrow> 'a \<Rightarrow> bool \<times> 'a) \<Rightarrow> 'a \<Rightarrow>
   reqChoice list \<Rightarrow> (failure + 'a \<times> failure option) option" where
  "AllRequirements c rg yield a sched =
     allNodes (WalkRequirementGraph c rg (Root rg)) yield a sched"

text \<open>\<open>slices.Collect\<close> as the consumer: it appends every element and never stops.\<close>

definition collectYield :: "'n \<Rightarrow> 'n list \<Rightarrow> bool \<times> 'n list" where
  "collectYield m a = (True, a @ [m])"

section \<open>resolvemvs.go\<close>

text \<open>
  \<open>ResolveMvs\<close> walks the graph with a \<open>nodeVisit\<close> that keeps, for each path, the first
  version met that no later version exceeds; it has no \<open>edgeVisit\<close>. The state of the
  callback is the map \<open>dg.sel\<close>. Then it computes the surprise dependencies of every
  selected dependency; the order of the list \<open>dg_sel\<close> stands for the order in which the
  map is ranged over.
\<close>

definition mvsVisit ::
  "ctx \<Rightarrow> Requirement option \<Rightarrow> (string \<times> Dependency) list \<Rightarrow>
   (failure + bool) \<times> (string \<times> Dependency) list" where
  "mvsVisit c m sel =
     (case m of
        None \<Rightarrow> (Inl (Panic ''nil pointer dereference''), sel)
      | Some mId \<Rightarrow>
          (case map_of sel (Path mId) of
             None \<Rightarrow> (Inr True, AList.update (Path mId) mId sel)
           | Some d \<Rightarrow>
               if Compare (Version mId) (Version d) > 0
               then (Inr True, AList.update (Path mId) mId sel)
               else (Inr True, sel)))"

definition ResolveMvs ::
  "module_check \<Rightarrow> ctx \<Rightarrow> RequirementGraph \<Rightarrow> reqChoice list \<Rightarrow>
   (failure + dependencyGraph) option" where
  "ResolveMvs module_Check c rg sched =
     (case WalkRequirementGraph c rg (Root rg) (Some mvsVisit) None [] sched of
        None \<Rightarrow> None
      | Some (Inl p) \<Rightarrow> Some (Inl p)
      | Some (Inr (Some err, sel, tr)) \<Rightarrow> Some (Inl err)
      | Some (Inr (None, sel, tr)) \<Rightarrow>
          Some (surpriseLoop module_Check c rg
                  \<lparr>dg_rg = rg, dg_sel = sel, dg_surprise = []\<rparr> (map snd sel)))"

section \<open>The SAT encoding of \<open>ResolveSat\<close>\<close>

text \<open>
  The solver library \<open>gophersat\<close> is not part of this repository. Its type \<open>solver.Var\<close>
  is \<open>int32\<close>; \<open>v.Int()\<close> is \<open>int32(v + 1)\<close> and \<open>v.Lit()\<close> is \<open>Lit(v * 2)\<close>, also an \<open>int32\<close>.
  A value of type \<open>int32\<close> is an integer kept in range by \<open>int32\<close>, which wraps around as
  the conversion and the arithmetic of Go do. The constraints are a propositional clause
  and an at-most-\<open>n\<close> constraint over integer literals.
\<close>

definition int32 :: "int \<Rightarrow> int" where
  "int32 x = (x + 2147483648) mod 4294967296 - 2147483648"

definition Var_Int :: "int \<Rightarrow> int" where
  "Var_Int v = int32 (v + 1)"

definition Var_Lit :: "int \<Rightarrow> int" where
  "Var_Lit v = int32 (v * 2)"

datatype PBConstr = PropClause "int list" | AtMost "int list" int

record satProblem =
  sat_constrs :: "PBConstr list"
  sat_costLits :: "int list"
  sat_costWeights :: "int list"

text \<open>An index expression \<open>xs[i]\<close> panics when \<open>i\<close> is out of range.\<close>

definition index :: "'a list \<Rightarrow> int \<Rightarrow> failure + 'a" where
  "index xs i =
     (if 0 \<le> i \<and> i < int (length xs) then Inr (xs ! nat i)
      else Inl (Panic ''index out of range''))"

text \<open>
  \<open>slices.SortedFunc\<close> collects the sequence and sorts it with \<open>slices.SortFunc\<close>. The
  standard library sorts a slice of at most twelve elements by insertion
  (\<open>insertionSortCmpFunc\<close>: \<open>for i := a + 1; i < b; i++ { for j := i; j > a && cmp(data[j],
  data[j-1]) < 0; j-- { swap } }\<close>); its pattern-defeating quicksort for longer slices is
  the parameter \<open>pdqsort\<close>.
\<close>

function insertionInner :: "('a \<Rightarrow> 'a \<Rightarrow> int) \<Rightarrow> 'a list \<Rightarrow> nat \<Rightarrow> 'a list" where
  "insertionInner cmp data j =
     (if 0 < j \<and> cmp (data ! j) (data ! (j - 1)) < 0
      then insertionInner cmp (data[j := data ! (j - 1), j - 1 := data ! j]) (j - 1)
      else data)"
  by pat_completeness auto
termination
  by (relation "measure (\<lambda>(cmp, data, j). j)") auto

definition insertionSortCmpFunc :: "('a \<Rightarrow> 'a \<Rightarrow> int) \<Rightarrow> 'a list \<Rightarrow> 'a list" where
  "insertionSortCmpFunc cmp data = fold (\<lambda>i d. insertionInner cmp d i) [1..<length data] data"

type_synonym 'a sortfn = "('a \<Rightarrow> 'a \<Rightarrow> int) \<Rightarrow> 'a list \<Rightarrow> 'a list"

definition slices_SortFunc :: "'a sortfn \<Rightarrow> ('a \<Rightarrow> 'a \<Rightarrow> int) \<Rightarrow> 'a list \<Rightarrow> 'a list" where
  "slices_SortFunc pdqsort cmp data =
     (if length data \<le> 12 then insertionSortCmpFunc cmp data else pdqsort cmp data)"

text \<open>
  \<open>vars\<close>: \<open>maps.Collect\<close> over the nodes with their indices converted to \<open>solver.Var\<close>; a
  later entry with the same key overwrites an earlier one. Reading a key that is absent
  gives the zero value.
\<close>

definition collectVars :: "Requirement list \<Rightarrow> (Requirement \<times> int) list" where
  "collectVars nodes =
     fold (\<lambda>(m, v). AList.update m (int32 (int v))) (zip nodes [0..<length nodes]) []"

definition varsLookup :: "(Requirement \<times> int) list \<Rightarrow> Requirement \<Rightarrow> int" where
  "varsLookup vars req = (case map_of vars req of None \<Rightarrow> 0 | Some v \<Rightarrow> v)"

lemma int32_range: "- 2147483648 \<le> int32 x \<and> int32 x < 2147483648"
  unfolding int32_def
  using pos_mod_sign [of 4294967296 "x + 2147483648"] pos_mod_bound [of 4294967296 "x + 2147483648"]
  by simp

lemma int32_id: "- 2147483648 \<le> x \<Longrightarrow> x < 2147483648 \<Longrightarrow> int32 x = x"
  unfolding int32_def by simp

lemma int32_next: "v < int32 n \<Longrightarrow> v < int32 (v + 1)"
proof (cases "- 2147483648 \<le> v + 1")
  case True
  assume a: "v < int32 n"
  with int32_range [of n] have "v + 1 < 2147483648" by simp
  with True have "int32 (v + 1) = v + 1" by (rule int32_id)
  then show ?thesis by simp
next
  case False
  with int32_range [of "v + 1"] show ?thesis by simp
qed

text \<open>
  The inner loop
  \<open>for v := vars[req]; v < solver.Var(len(nodes)) && nodes[v].Id().Path == req.Id().Path; v++\<close>,
  which appends \<open>int(v.Int())\<close> to the clause.
\<close>

function reqRange :: "Requirement list \<Rightarrow> string \<Rightarrow> int \<Rightarrow> failure + int list" where
  "reqRange nodes path v =
     (if v < int32 (int (length nodes)) then
        (case index nodes v of
           Inl f \<Rightarrow> Inl f
         | Inr n \<Rightarrow>
             if Path n = path then
               (case reqRange nodes path (int32 (v + 1)) of
                  Inl f \<Rightarrow> Inl f
                | Inr lits \<Rightarrow> Inr (Var_Int v # lits))
             else Inr [])
      else Inr [])"
  by pat_completeness auto
termination
proof (relation "measure (\<lambda>(nodes, path, v). nat (int32 (int (length nodes)) - v))")
  show "wf (measure (\<lambda>(nodes, path, v). nat (int32 (int (length nodes)) - v)))" by simp
next
  fix nodes :: "Requirement list" and path :: string and v :: int and n :: Requirement
  assume "v < int32 (int (length nodes))"
  then show "((nodes, path, int32 (v + 1)), nodes, path, v)
               \<in> measure (\<lambda>(nodes, path, v). nat (int32 (int (length nodes)) - v))"
    using int32_next [of v "int (length nodes)"] by simp
qed

text \<open>The clauses of the requirements of the node with variable \<open>v\<close>, one per requirement.\<close>

fun reqClauses ::
  "Requirement list \<Rightarrow> (Requirement \<times> int) list \<Rightarrow> int \<Rightarrow> (Requirement \<times> bool) list \<Rightarrow>
   failure + PBConstr list" where
  "reqClauses nodes vars v [] = Inr []"
| "reqClauses nodes vars v ((req, ind) # rest) =
     (case reqRange nodes (Path req) (varsLookup vars req) of
        Inl f \<Rightarrow> Inl f
      | Inr lits \<Rightarrow>
          (case reqClauses nodes vars v rest of
             Inl f \<Rightarrow> Inl f
           | Inr cls \<Rightarrow> Inr (PropClause (- Var_Int v # lits) # cls)))"

text \<open>
  The main loop of \<open>buildSatProblem\<close> over the variables, with the literals of the current
  path \<open>pathLits\<close> and the constraints so far.
\<close>

definition nextNode :: "Requirement list \<Rightarrow> int \<Rightarrow> failure + Requirement option" where
  "nextNode nodes v =
     (if int32 (v + 1) < int32 (int (length nodes)) then
        (case index nodes (int32 (v + 1)) of Inl f \<Rightarrow> Inl f | Inr n \<Rightarrow> Inr (Some n))
      else Inr None)"

function satLoop ::
  "RequirementGraph \<Rightarrow> Requirement list \<Rightarrow> (Requirement \<times> int) list \<Rightarrow> int \<Rightarrow> int list \<Rightarrow>
   PBConstr list \<Rightarrow> failure + PBConstr list" where
  "satLoop rg nodes vars v pathLits constrs =
     (if v < int32 (int (length nodes)) then
        (case index nodes v of
           Inl f \<Rightarrow> Inl f
         | Inr m \<Rightarrow>
             (case nextNode nodes v of
                Inl f \<Rightarrow> Inl f
              | Inr nextm \<Rightarrow>
                  (let pathLits1 = pathLits @ [Var_Int v];
                       complete = (case nextm of None \<Rightarrow> True | Some n \<Rightarrow> Path n \<noteq> Path m);
                       constrs1 = (if complete \<and> 1 < length pathLits1
                                   then constrs @ [AtMost pathLits1 1] else constrs);
                       pathLits2 = (if complete then [] else pathLits1)
                   in case Reqs rg m of
                        Inl f \<Rightarrow> Inl f
                      | Inr reqs \<Rightarrow>
                          (case reqClauses nodes vars v reqs of
                             Inl f \<Rightarrow> Inl f
                           | Inr cls \<Rightarrow>
                               satLoop rg nodes vars (int32 (v + 1)) pathLits2 (constrs1 @ cls)))))
      else Inr constrs)"
  by pat_completeness auto
termination
proof (relation "measure (\<lambda>(rg, nodes, vars, v, pathLits, constrs).
                    nat (int32 (int (length nodes)) - v))")
  show "wf (measure (\<lambda>(rg, nodes, vars, v, pathLits, constrs).
                    nat (int32 (int (length nodes)) - v)))" by simp
next
  fix rg :: RequirementGraph and nodes :: "Requirement list" and vars :: "(Requirement \<times> int) list"
    and v :: int and pathLits pathLits2 :: "int list" and constrs constrs1 cls :: "PBConstr list"
  assume "v < int32 (int (length nodes))"
  then show "((rg, nodes, vars, int32 (v + 1), pathLits2, constrs1 @ cls),
              rg, nodes, vars, v, pathLits, constrs)
             \<in> measure (\<lambda>(rg, nodes, vars, v, pathLits, constrs).
                    nat (int32 (int (length nodes)) - v))"
    using int32_next [of v "int (length nodes)"] by simp
qed

text \<open>The literals of the cost function: \<open>v.Lit()\<close> for every variable below \<open>solver.Var(len(nodes))\<close>.\<close>

function costLits :: "nat \<Rightarrow> int \<Rightarrow> int list" where
  "costLits n v = (if v < int32 (int n) then Var_Lit v # costLits n (int32 (v + 1)) else [])"
  by pat_completeness auto
termination
proof (relation "measure (\<lambda>(n, v). nat (int32 (int n) - v))")
  show "wf (measure (\<lambda>(n, v). nat (int32 (int n) - v)))" by simp
next
  fix n :: nat and v :: int
  assume "v < int32 (int n)"
  then show "((n, int32 (v + 1)), n, v) \<in> measure (\<lambda>(n, v). nat (int32 (int n) - v))"
    using int32_next [of v "int n"] by simp
qed

text \<open>
  \<open>buildSatProblem\<close>: the walk that collects the nodes, the sort, the error of the walk,
  then the variables and the constraints. \<open>RequirementCompare\<close> calls \<open>Id()\<close> on both
  arguments, so sorting two or more nodes of which one is nil panics; a single nil node
  makes the loop panic when it asks the graph for the requirements of nil.
\<close>

definition buildSatProblem ::
  "Requirement sortfn \<Rightarrow> ctx \<Rightarrow> RequirementGraph \<Rightarrow> reqChoice list \<Rightarrow>
   (failure + satProblem \<times> Requirement list \<times> (Requirement \<times> int) list) option" where
  "buildSatProblem pdqsort c rg sched =
     (case AllRequirements c rg collectYield [] sched of
        None \<Rightarrow> None
      | Some (Inl p) \<Rightarrow> Some (Inl p)
      | Some (Inr (nodesSeq, doneErr)) \<Rightarrow>
          Some
            (if None \<in> set nodesSeq \<and> 1 < length nodesSeq
             then Inl (Panic ''nil pointer dereference'')
             else case doneErr of
               Some err \<Rightarrow> Inl err
             | None \<Rightarrow>
                 if None \<in> set nodesSeq then Inl (Panic ''nil pointer dereference'')
                 else
                   (let nodes = slices_SortFunc pdqsort RequirementCompare (map the nodesSeq);
                        vars = collectVars nodes;
                        rootVar = (case Root rg of None \<Rightarrow> 0 | Some r \<Rightarrow> varsLookup vars r)
                    in case satLoop rg nodes vars 0 [] [PropClause [Var_Int rootVar]] of
                         Inl f \<Rightarrow> Inl f
                       | Inr constrs \<Rightarrow>
                           Inr (\<lparr>sat_constrs = constrs,
                                 sat_costLits = costLits (length nodes) 0,
                                 sat_costWeights = replicate (length nodes) 1\<rparr>, nodes, vars))))"

section \<open>unifyrequirements.go\<close>

text \<open>
  The state that the callbacks of \<open>unifyRequirementsInner\<close> share under the mutex: the
  map \<open>max\<close> (which \<open>UnifyRequirements\<close> keeps from one walk to the next), the graph \<open>ret\<close>
  under construction and the flag \<open>restart\<close>.
\<close>

record unifyState =
  us_max :: "(string \<times> string) list"
  us_ret :: requirementGraph
  us_restart :: bool

text \<open>
  \<open>nodeVisit\<close>: a version older than the newest seen is not descended; a newer one asks
  for a restart. The node becomes the root of \<open>ret\<close> when its identifier is that of the
  root of the graph walked, and gets empty requirement sets.
\<close>

definition unifyNodeVisit ::
  "RequirementGraph \<Rightarrow> ctx \<Rightarrow> Requirement option \<Rightarrow> unifyState \<Rightarrow> (failure + bool) \<times> unifyState" where
  "unifyNodeVisit rg c m st =
     (case m of
        None \<Rightarrow> (Inl (Panic ''nil pointer dereference''), st)
      | Some mId \<Rightarrow>
          (let cmp = (case map_of (us_max st) (Path mId) of
                        None \<Rightarrow> None
                      | Some mv \<Rightarrow> Some (Compare (Version mId) mv))
           in if (case cmp of None \<Rightarrow> False | Some k \<Rightarrow> k < 0) then (Inr False, st)
              else
                (let st1 = st\<lparr>us_restart :=
                                  (case cmp of None \<Rightarrow> us_restart st
                                             | Some k \<Rightarrow> if 0 < k then True else us_restart st),
                                us_max := AList.update (Path mId) (Version mId) (us_max st)\<rparr>
                 in case Root rg of
                      None \<Rightarrow> (Inl (Panic ''nil pointer dereference''), st1)
                    | Some rootId \<Rightarrow>
                        (let ret1 = (if mId = rootId then (us_ret st1)\<lparr>rg_root := Some mId\<rparr>
                                     else us_ret st1);
                             ret2 = ret1\<lparr>rg_reqs :=
                                      AList.update mId \<lparr>reqs_d = [], reqs_i = []\<rparr> (rg_reqs ret1)\<rparr>
                         in (Inr True, st1\<lparr>us_ret := ret2\<rparr>)))))"

text \<open>
  \<open>edgeVisit\<close>: an edge from a parent that is not the newest version of its path is
  ignored; otherwise the child, with its version replaced by the newest seen of its
  path, is added to the parent's direct or indirect set in \<open>ret\<close>.
\<close>

definition maxOf :: "(string \<times> string) list \<Rightarrow> string \<Rightarrow> string" where
  "maxOf mx p = (case map_of mx p of None \<Rightarrow> [] | Some v \<Rightarrow> v)"

definition unifyEdgeVisit ::
  "ctx \<Rightarrow> Requirement option \<Rightarrow> Requirement option \<Rightarrow> bool \<Rightarrow> unifyState \<Rightarrow>
   failure option \<times> unifyState" where
  "unifyEdgeVisit c p m ind st =
     (case p of
        None \<Rightarrow> (Some (Panic ''nil pointer dereference''), st)
      | Some pId \<Rightarrow>
          (case m of
             None \<Rightarrow> (Some (Panic ''nil pointer dereference''), st)
           | Some mId \<Rightarrow>
               if Version pId \<noteq> maxOf (us_max st) (Path pId) then (None, st)
               else
                 (let m2 = mId\<lparr>Version := maxOf (us_max st) (Path mId)\<rparr> in
                  case map_of (rg_reqs (us_ret st)) pId of
                    None \<Rightarrow> (Some (Panic ''nil pointer dereference''), st)
                  | Some r \<Rightarrow>
                      (None,
                       st\<lparr>us_ret := (us_ret st)\<lparr>rg_reqs :=
                            AList.update pId
                              (if ind then r\<lparr>reqs_i := set_Add m2 (reqs_i r)\<rparr>
                               else r\<lparr>reqs_d := set_Add m2 (reqs_d r)\<rparr>)
                              (rg_reqs (us_ret st))\<rparr>\<rparr>))))"

text \<open>
  \<open>unifyRequirementsInner\<close> returns the new graph and the flag; the model also returns
  the map \<open>max\<close>, which the source updates in place.
\<close>

definition unifyRequirementsInner ::
  "ctx \<Rightarrow> RequirementGraph \<Rightarrow> (string \<times> string) list \<Rightarrow> reqChoice list \<Rightarrow>
   (failure + requirementGraph \<times> bool \<times> (string \<times> string) list) option" where
  "unifyRequirementsInner c rg mx sched =
     (case WalkRequirementGraph c rg (Root rg) (Some (unifyNodeVisit rg)) (Some unifyEdgeVisit)
             \<lparr>us_max = mx, us_ret = \<lparr>rg_root = None, rg_reqs = []\<rparr>, us_restart = False\<rparr> sched of
        None \<Rightarrow> None
      | Some (Inl p) \<Rightarrow> Some (Inl p)
      | Some (Inr (Some err, st, tr)) \<Rightarrow> Some (Inl err)
      | Some (Inr (None, st, tr)) \<Rightarrow> Some (Inr (us_ret st, us_restart st, us_max st)))"

text \<open>
  \<open>UnifyRequirements\<close>: walk, and walk the result again while a walk asks for a restart.
  Every walk has a schedule of its own; the list of schedules must hold exactly one for
  each walk made.
\<close>

fun unifyLoop ::
  "module_check \<Rightarrow> ctx \<Rightarrow> RequirementGraph \<Rightarrow> (string \<times> string) list \<Rightarrow> reqChoice list list \<Rightarrow>
   (failure + requirementGraph) option" where
  "unifyLoop module_Check c rg mx [] = None"
| "unifyLoop module_Check c rg mx (sched # rest) =
     (case unifyRequirementsInner c rg mx sched of
        None \<Rightarrow> None
      | Some (Inl f) \<Rightarrow> Some (Inl f)
      | Some (Inr (unified, restart, mx')) \<Rightarrow>
          if restart then unifyLoop module_Check c (asRequirementGraph module_Check unified) mx' rest
          else if rest = [] then Some (Inr unified) else None)"

definition UnifyRequirements ::
  "module_check \<Rightarrow> ctx \<Rightarrow> RequirementGraph \<Rightarrow> reqChoice list list \<Rightarrow>
   (failure + requirementGraph) option" where
  "UnifyRequirements module_Check c rg scheds = unifyLoop module_Check c rg [] scheds"

section \<open>Devices of the proofs about the walker\<close>

text \<open>
  Not part of the program: the order of the events of a trace that the walker keeps, and
  the invariant of its states that gives it.
\<close>

definition edgeOrdered :: "('n, 'e) event list \<Rightarrow> bool" where
  "edgeOrdered es =
     (\<forall>es1 p m c es2. es = es1 @ EdgeVisitCall p m c # es2 \<longrightarrow>
        (\<exists>b. NodeVisitReturn p b \<in> set es1) \<and> (\<exists>b. NodeVisitReturn m b \<in> set es1))"

definition readyReturned :: "('n, 'e, 's) walk \<Rightarrow> bool" where
  "readyReturned w =
     ((\<forall>x \<in> set (ready w). \<exists>b. NodeVisitReturn x b \<in> set (trace w)) \<and> edgeOrdered (trace w))"

text \<open>A walk over the cyclic graph \<open>a \<rightarrow> b \<rightarrow> a\<close>, whose callbacks log their calls.\<close>

definition cyc_ps :: "(string, string, string list) walkParams" where
  "cyc_ps = \<lparr>zeroN = [], zeroE = [],
     nodeVisit = Some (\<lambda>c m s. (Inr True, s @ [m])),
     load = Some (\<lambda>c m. Inr ()),
     edges = (\<lambda>m. if m = ''a'' then Inr [(''b'', ''red'')]
                   else if m = ''b'' then Inr [(''a'', ''blue'')] else Inr []),
     edgeVisit = Some (\<lambda>c p m col s. (None, s @ [p @ ''->'' @ m]))\<rparr>"

definition cyc_sched :: "(string, string) choice list" where
  "cyc_sched =
     [Receive ([], ''a'', []), VisitCall ''a'', VisitReturn ''a'', Descend ''a'',
      Receive (''a'', ''b'', ''red''), VisitCall ''b'', VisitReturn ''b'',
      EdgeVisit ((''a'', ''b'', ''red''), True), Descend ''b'',
      Receive (''b'', ''a'', ''blue''), EdgeVisit ((''b'', ''a'', ''blue''), True), LoopExit]"

section \<open>The calls recorded in a trace\<close>

text \<open>
  The nodes and edges for which a trace records a call of \<open>nodeVisit\<close>, a return of
  \<open>nodeVisit\<close>, a call of \<open>load\<close>, a range over \<open>edges\<close>, or a call of \<open>edgeVisit\<close>.
  \<open>descended\<close> are the nodes for which \<open>nodeVisit\<close> returned \<open>descend = true\<close>; \<open>discovered\<close>
  are the queue entries made from what \<open>edges\<close> yielded, without those whose parent is the
  zero node (for which \<open>process\<close> starts no edge goroutine). \<open>walkEdge ps ms\<close> are the edges
  out of the nodes \<open>ms\<close>. The predicates \<open>nodeInv\<close>, \<open>edgeInv\<close>, \<open>covInv\<close> and \<open>walkInv\<close> are
  devices of the proofs: invariants of the states of a walk without error.
\<close>

fun nodeCalls :: "('n, 'e) event list \<Rightarrow> 'n list" where
  "nodeCalls [] = []"
| "nodeCalls (NodeVisitCall m # es) = m # nodeCalls es"
| "nodeCalls (e # es) = nodeCalls es"

fun nodeReturns :: "('n, 'e) event list \<Rightarrow> ('n \<times> bool) list" where
  "nodeReturns [] = []"
| "nodeReturns (NodeVisitReturn m b # es) = (m, b) # nodeReturns es"
| "nodeReturns (e # es) = nodeReturns es"

fun loadCalls :: "('n, 'e) event list \<Rightarrow> 'n list" where
  "loadCalls [] = []"
| "loadCalls (LoadCall m # es) = m # loadCalls es"
| "loadCalls (e # es) = loadCalls es"

fun edgesCalls :: "('n, 'e) event list \<Rightarrow> 'n list" where
  "edgesCalls [] = []"
| "edgesCalls (EdgesCall m # es) = m # edgesCalls es"
| "edgesCalls (e # es) = edgesCalls es"

fun edgeCalls :: "('n, 'e) event list \<Rightarrow> ('n \<times> 'n \<times> 'e) list" where
  "edgeCalls [] = []"
| "edgeCalls (EdgeVisitCall p m c # es) = (p, m, c) # edgeCalls es"
| "edgeCalls (e # es) = edgeCalls es"

definition descended :: "('n, 'e) event list \<Rightarrow> 'n list" where
  "descended es = map fst (filter snd (nodeReturns es))"

definition edgesOf :: "('n, 'e, 's) walkParams \<Rightarrow> 'n \<Rightarrow> ('n \<times> 'n \<times> 'e) list" where
  "edgesOf ps m =
     (case edges ps m of Inl f \<Rightarrow> [] | Inr es \<Rightarrow> map (\<lambda>(child, color). (m, child, color)) es)"

definition discovered :: "('n, 'e, 's) walkParams \<Rightarrow> ('n, 'e) event list \<Rightarrow> ('n \<times> 'n \<times> 'e) list" where
  "discovered ps es =
     filter (\<lambda>qe. fst qe \<noteq> zeroN ps) (concat (map (edgesOf ps) (edgesCalls es)))"

definition atStage :: "stage \<Rightarrow> ('n \<times> stage) list \<Rightarrow> 'n list" where
  "atStage st ts = map fst (filter (\<lambda>t. snd t = st) ts)"

definition nodeInv :: "('n, 'e, 's) walkParams \<Rightarrow> ('n, 'e, 's) walk \<Rightarrow> bool" where
  "nodeInv ps w =
     (distinct (seen w) \<and>
      mset (seen w) = mset (nodeCalls (trace w)) + mset (atStage Spawned (nodeTasks w)) \<and>
      mset (nodeCalls (trace w)) =
        mset (map fst (nodeReturns (trace w))) + mset (atStage Visiting (nodeTasks w)) \<and>
      mset (descended (trace w)) =
        mset (edgesCalls (trace w)) + mset (atStage Loading (nodeTasks w)) \<and>
      (load ps \<noteq> None \<longrightarrow> loadCalls (trace w) = edgesCalls (trace w)))"

definition edgeInv :: "('n, 'e, 's) walkParams \<Rightarrow> ('n, 'e, 's) walk \<Rightarrow> bool" where
  "edgeInv ps w =
     (if edgeVisit ps = None then edgeTasks w = [] \<and> edgeCalls (trace w) = []
      else mset (discovered ps (trace w)) =
             mset (edgeCalls (trace w)) + mset (map fst (edgeTasks w)) +
             mset (filter (\<lambda>qe. fst qe \<noteq> zeroN ps) (senders w)))"

definition walkEdge :: "('n, 'e, 's) walkParams \<Rightarrow> 'n list \<Rightarrow> ('n \<times> 'n) set" where
  "walkEdge ps ms = {(m, child). m \<in> set ms \<and> (\<exists>c. (m, child, c) \<in> set (edgesOf ps m))}"

definition covInv :: "('n, 'e, 's) walkParams \<Rightarrow> 'n \<Rightarrow> ('n, 'e, 's) walk \<Rightarrow> bool" where
  "covInv ps start w =
     ((start \<in> set (seen w) \<or> (zeroN ps, start, zeroE ps) \<in> set (senders w)) \<and>
      (\<forall>m \<in> set (edgesCalls (trace w)). \<forall>qe \<in> set (edgesOf ps m).
          fst (snd qe) \<in> set (seen w) \<or> qe \<in> set (senders w)) \<and>
      (\<forall>m \<in> set (seen w). (start, m) \<in> (walkEdge ps (edgesCalls (trace w)))\<^sup>*) \<and>
      (\<forall>qe \<in> set (senders w). (start, fst (snd qe)) \<in> (walkEdge ps (edgesCalls (trace w)))\<^sup>*))"

definition walkInv :: "('n, 'e, 's) walkParams \<Rightarrow> 'n \<Rightarrow> ('n, 'e, 's) walk \<Rightarrow> bool" where
  "walkInv ps start w =
     (firstErr w = None \<and> panicked w = None \<longrightarrow> nodeInv ps w \<and> edgeInv ps w \<and> covInv ps start w)"




section \<open>The requirements reachable from the root\<close>

text \<open>
  \<open>reqEdge\<close> are the edges of a requirement graph, direct and immediate-indirect;
  \<open>reachable\<close> are the requirements that can be reached from the root through them. The
  predicate \<open>mvsInv\<close> is a device of the proofs: the invariant that the walk of
  \<open>ResolveMvs\<close> keeps between the nodes visited and the selection.
\<close>

definition reqEdge :: "RequirementGraph \<Rightarrow> (Requirement \<times> Requirement) set" where
  "reqEdge rg = {(m, child). \<exists>es ind. Reqs rg m = Inr es \<and> (child, ind) \<in> set es}"

definition reachable :: "RequirementGraph \<Rightarrow> Requirement set" where
  "reachable rg = {r. \<exists>root. Root rg = Some root \<and> (root, r) \<in> (reqEdge rg)\<^sup>*}"

definition mvsInv :: "(Requirement option, bool, (string \<times> Dependency) list) walk \<Rightarrow> bool" where
  "mvsInv w =
     (firstErr w = None \<and> panicked w = None \<longrightarrow>
        (\<forall>x \<in> set (nodeReturns (trace w)). snd x \<and>
            (\<exists>r d. fst x = Some r \<and> map_of (cb w) (Path r) = Some d \<and>
                   Compare (Version r) (Version d) \<le> 0)) \<and>
        (\<forall>p d. map_of (cb w) p = Some d \<longrightarrow>
            Path d = p \<and> (Some d, True) \<in> set (nodeReturns (trace w))))"

section \<open>Example graphs\<close>

text \<open>
  For \<open>computeSurpriseDeps\<close>: version 1.1.0 of module \<open>a\<close> requires \<open>b\<close> directly and its own
  version 1.0.0 indirectly, and \<open>b\<close> requires version 1.0.0 of \<open>a\<close>.
\<close>

definition sur_a0 :: ModuleId where "sur_a0 = NewModuleId ''example.com/a'' ''v1.0.0''"
definition sur_a1 :: ModuleId where "sur_a1 = NewModuleId ''example.com/a'' ''v1.1.0''"
definition sur_b :: ModuleId where "sur_b = NewModuleId ''example.com/b'' ''v1.0.0''"
definition sur_rg :: requirementGraph where
  "sur_rg = \<lparr>rg_root = Some sur_a1,
     rg_reqs = [(sur_a1, \<lparr>reqs_d = [sur_b], reqs_i = [sur_a0]\<rparr>),
                (sur_b, \<lparr>reqs_d = [sur_a0], reqs_i = []\<rparr>),
                (sur_a0, \<lparr>reqs_d = [], reqs_i = []\<rparr>)]\<rparr>"
definition sur_sched :: "reqChoice list" where
  "sur_sched =
     [Receive (None, Some sur_a1, False), VisitCall (Some sur_a1), VisitReturn (Some sur_a1),
      Descend (Some sur_a1),
      Receive (Some sur_a1, Some sur_b, False), VisitCall (Some sur_b), VisitReturn (Some sur_b),
      Descend (Some sur_b),
      Receive (Some sur_a1, Some sur_a0, True), VisitCall (Some sur_a0), VisitReturn (Some sur_a0),
      Descend (Some sur_a0),
      Receive (Some sur_b, Some sur_a0, False), LoopExit]"
definition sur_dg :: dependencyGraph where
  "sur_dg = \<lparr>dg_rg = asRequirementGraph accept_all sur_rg,
     dg_sel = [(''example.com/a'', sur_a1), (''example.com/b'', sur_b)],
     dg_surprise = [(sur_a1, [sur_a1]), (sur_b, [])]\<rparr>"

text \<open>
  For \<open>buildSatProblem\<close>: a root that requires two versions of \<open>x\<close> that differ only in
  their build metadata.
\<close>

definition tie_root :: ModuleId where "tie_root = NewModuleId ''example.com/root'' ''v1.0.0''"
definition tie_xa :: ModuleId where "tie_xa = NewModuleId ''example.com/x'' ''v1.0.0+a''"
definition tie_xb :: ModuleId where "tie_xb = NewModuleId ''example.com/x'' ''v1.0.0+b''"
definition tie_rg :: requirementGraph where
  "tie_rg = \<lparr>rg_root = Some tie_root,
     rg_reqs = [(tie_root, \<lparr>reqs_d = [tie_xa, tie_xb], reqs_i = []\<rparr>),
                (tie_xa, \<lparr>reqs_d = [], reqs_i = []\<rparr>), (tie_xb, \<lparr>reqs_d = [], reqs_i = []\<rparr>)]\<rparr>"
definition tie_sched :: "reqChoice list" where
  "tie_sched =
     [Receive (None, Some tie_root, False), VisitCall (Some tie_root), VisitReturn (Some tie_root),
      Descend (Some tie_root),
      Receive (Some tie_root, Some tie_xa, False), VisitCall (Some tie_xa), VisitReturn (Some tie_xa),
      Descend (Some tie_xa),
      Receive (Some tie_root, Some tie_xb, False), VisitCall (Some tie_xb), VisitReturn (Some tie_xb),
      Descend (Some tie_xb), LoopExit]"
definition tie_prob :: satProblem where
  "tie_prob = \<lparr>sat_constrs = [PropClause [1], PropClause [- 1, 2, 3], PropClause [- 1, 3],
                               AtMost [2, 3] 1],
                sat_costLits = [0, 2, 4], sat_costWeights = [1, 1, 1]\<rparr>"

text \<open>
  For \<open>UnifyRequirements\<close>: version 1.0.0 of the root requires \<open>dep\<close>, which requires
  version 1.1.0 of the root.
\<close>

definition uni_r0 :: ModuleId where "uni_r0 = NewModuleId ''example.com/root'' ''v1.0.0''"
definition uni_r1 :: ModuleId where "uni_r1 = NewModuleId ''example.com/root'' ''v1.1.0''"
definition uni_dep :: ModuleId where "uni_dep = NewModuleId ''example.com/dep'' ''v1.0.0''"
definition uni_rg :: requirementGraph where
  "uni_rg = \<lparr>rg_root = Some uni_r0,
     rg_reqs = [(uni_r0, \<lparr>reqs_d = [uni_dep], reqs_i = []\<rparr>),
                (uni_dep, \<lparr>reqs_d = [uni_r1], reqs_i = []\<rparr>),
                (uni_r1, \<lparr>reqs_d = [], reqs_i = []\<rparr>)]\<rparr>"
definition uni_sched1 :: "reqChoice list" where
  "uni_sched1 =
     [Receive (None, Some uni_r0, False), VisitCall (Some uni_r0), VisitReturn (Some uni_r0),
      Descend (Some uni_r0),
      Receive (Some uni_r0, Some uni_dep, False), VisitCall (Some uni_dep), VisitReturn (Some uni_dep),
      EdgeVisit ((Some uni_r0, Some uni_dep, False), True), Descend (Some uni_dep),
      Receive (Some uni_dep, Some uni_r1, False), VisitCall (Some uni_r1), VisitReturn (Some uni_r1),
      EdgeVisit ((Some uni_dep, Some uni_r1, False), True), Descend (Some uni_r1), LoopExit]"
definition uni_sched2 :: "reqChoice list" where
  "uni_sched2 =
     [Receive (None, Some uni_r0, False), VisitCall (Some uni_r0), VisitReturn (Some uni_r0),
      LoopExit]"
definition uni_sched3 :: "reqChoice list" where
  "uni_sched3 = [Receive (None, None, False), VisitCall None, VisitReturn None]"
definition uni_out :: requirementGraph where
  "uni_out = \<lparr>rg_root = None, rg_reqs = []\<rparr>"

chapter \<open>Properties\<close>

section \<open>Properties of \<open>ParseModuleId\<close>\<close>

lemma SplitN_at_2_no_at: "CHR ''@'' \<notin> set s \<Longrightarrow> SplitN_at_2 s = [s]"
  by (simp add: SplitN_at_2_def)

lemma SplitN_at_2_first_at:
  "CHR ''@'' \<notin> set p \<Longrightarrow> SplitN_at_2 (p @ CHR ''@'' # v) = [p, v]"
  by (induction p) (auto simp: SplitN_at_2_def)

text \<open>
  Claim C10. \<open>ParseModuleId\<close> cuts its input at the first \<open>@\<close> only: when \<open>path\<close> holds no
  \<open>@\<close>, parsing \<open>path @ v\<close> joined by one \<open>@\<close> gives \<open>NewModuleId path v\<close>, whatever \<open>v\<close>
  is (it may hold further \<open>@\<close>); and a string without \<open>@\<close> parses to itself with the
  empty version.
\<close>

theorem ParseModuleId_splits_at_first_at:
  "(CHR ''@'' \<notin> set path \<longrightarrow> ParseModuleId (path @ ''@'' @ v) = NewModuleId path v) \<and>
   (CHR ''@'' \<notin> set s \<longrightarrow> ParseModuleId s = NewModuleId s '''')"
  by (simp add: ParseModuleId_def SplitN_at_2_no_at SplitN_at_2_first_at)

theorem ParseModuleId_splits_at_first_at_witness:
  "ParseModuleId ''example.com/m@v1.0.0@x'' = NewModuleId ''example.com/m'' ''v1.0.0@x'' \<and>
   ParseModuleId ''example.com/m'' = NewModuleId ''example.com/m'' ''''"
  using ParseModuleId_splits_at_first_at [of "''example.com/m''" "''v1.0.0@x''" "''example.com/m''"]
  by simp

section \<open>Properties of \<open>Selected\<close>\<close>

text \<open>
  Claim C2. For every dependency graph and every module identifier \<open>req\<close> (so in
  particular for one with a non-empty canonical version), \<open>Selected\<close> returns a dependency
  exactly when the selection has an entry for \<open>req\<close>'s path whose version is not below
  \<open>req\<close>'s version in the semantic-version order; it then returns that entry, and it
  returns nil otherwise.
\<close>

theorem Selected_spec:
  "((\<exists>d. Selected dg req = Some d) =
      (\<exists>d. map_of (dg_sel dg) (Path req) = Some d \<and> 0 \<le> Compare (Version d) (Version req))) \<and>
   (\<forall>d. map_of (dg_sel dg) (Path req) = Some d \<and> 0 \<le> Compare (Version d) (Version req)
        \<longrightarrow> Selected dg req = Some d) \<and>
   ((\<forall>d. map_of (dg_sel dg) (Path req) = Some d \<longrightarrow> Compare (Version d) (Version req) < 0)
        \<longrightarrow> Selected dg req = None)"
  by (auto simp: Selected_def split: option.splits)

theorem Selected_spec_witness:
  "Selected \<lparr>dg_rg = asRequirementGraph (\<lambda>p v. None) \<lparr>rg_root = None, rg_reqs = []\<rparr>,
             dg_sel = [(''a'', NewModuleId ''a'' ''v1.2.0'')], dg_surprise = []\<rparr>
     (NewModuleId ''a'' ''v1.0.0'') = Some (NewModuleId ''a'' ''v1.2.0'') \<and>
   Selected \<lparr>dg_rg = asRequirementGraph (\<lambda>p v. None) \<lparr>rg_root = None, rg_reqs = []\<rparr>,
             dg_sel = [(''a'', NewModuleId ''a'' ''v1.2.0'')], dg_surprise = []\<rparr>
     (NewModuleId ''a'' ''v1.3.0'') = None"
proof -
  let ?dg = "\<lparr>dg_rg = asRequirementGraph (\<lambda>p v. None) \<lparr>rg_root = None, rg_reqs = []\<rparr>,
             dg_sel = [(''a'', NewModuleId ''a'' ''v1.2.0'')], dg_surprise = []\<rparr>"
  have c1: "Compare ''v1.2.0'' ''v1.0.0'' = 1" by code_simp
  have c2: "Compare ''v1.2.0'' ''v1.3.0'' = - 1" by code_simp
  show ?thesis
    using Selected_spec [of ?dg "NewModuleId ''a'' ''v1.0.0''"]
          Selected_spec [of ?dg "NewModuleId ''a'' ''v1.3.0''"]
    by (simp add: NewModuleId_def c1 c2)
qed

section \<open>Properties of \<open>Load\<close> on the eager graph\<close>

text \<open>
  Claim C8, as stated, says that \<open>Load\<close> returns a non-nil error for a module that is not
  a node of the graph. It does not return: it panics. On the empty graph:
\<close>

theorem Load_panics_counterexample:
  "requirementGraph_Load \<lparr>rg_root = None, rg_reqs = []\<rparr> None (NewModuleId ''a'' ''v1.0.0'')
     = Inl (Panic ''module is not in this requirement graph'')"
  by (simp add: requirementGraph_Load_def)

text \<open>
  Claim C8, amended. For every context, \<open>Load\<close> on the eager in-memory graph returns nil
  for every node of the graph and panics (it never returns an error) for every module
  that is not a node.
\<close>

theorem Load_member_or_panic:
  "requirementGraph_Load rg c m =
     (if m \<in> fst ` set (rg_reqs rg) then Inr ()
      else Inl (Panic ''module is not in this requirement graph''))"
  by (auto simp: requirementGraph_Load_def map_of_eq_None_iff dest: map_of_SomeD intro: rev_image_eqI
           split: option.splits)

theorem Load_member_or_panic_witness:
  "requirementGraph_Load \<lparr>rg_root = Some (NewModuleId ''a'' ''v1.0.0''),
         rg_reqs = [(NewModuleId ''a'' ''v1.0.0'', \<lparr>reqs_d = [], reqs_i = []\<rparr>)]\<rparr>
     (Some (Error ''context canceled'')) (NewModuleId ''a'' ''v1.0.0'') = Inr () \<and>
   requirementGraph_Load \<lparr>rg_root = Some (NewModuleId ''a'' ''v1.0.0''),
         rg_reqs = [(NewModuleId ''a'' ''v1.0.0'', \<lparr>reqs_d = [], reqs_i = []\<rparr>)]\<rparr>
     None (NewModuleId ''b'' ''v1.0.0'') = Inl (Panic ''module is not in this requirement graph'')"
  using Load_member_or_panic [of "\<lparr>rg_root = Some (NewModuleId ''a'' ''v1.0.0''),
         rg_reqs = [(NewModuleId ''a'' ''v1.0.0'', \<lparr>reqs_d = [], reqs_i = []\<rparr>)]\<rparr>"]
  by (simp add: NewModuleId_def)

section \<open>The semantic-version comparison is a three-way comparison of keys\<close>

lemma cmp3_flip: "cmp3 b a = - cmp3 a b"
  by (auto simp: cmp3_def)

lemma cmp3_le0: "(cmp3 a b \<le> 0) = (a \<le> b)"
  by (auto simp: cmp3_def)

lemma cmp3_lt0: "(cmp3 a b < 0) = (a < b)"
  by (auto simp: cmp3_def)

lemma cmp3_gt0: "(0 < cmp3 a b) = (b < a)"
  by (auto simp: cmp3_def)

lemma cmp3_eq0: "(cmp3 a b = 0) = (a = b)"
  by (auto simp: cmp3_def)

lemma cmp3_range: "cmp3 a b \<in> {- 1, 0, 1}"
  by (auto simp: cmp3_def)

lemma compareInt_key: "compareInt x y = cmp3 (intKey x) (intKey y)"
  by (auto simp: compareInt_def cmp3_def intKey_def)

lemma compareIdent_key: "dx \<noteq> dy \<Longrightarrow> compareIdent dx dy = cmp3 (identKey dx) (identKey dy)"
  by (auto simp: compareIdent_def cmp3_def identKey_def Let_def)

lemma identKey_inj: "(identKey a = identKey b) = (a = b)"
  by (auto simp: identKey_def)

declare comparePrereleaseLoop.simps [simp del]

declare preIdents.simps [simp del]

lemma preIdents_Nil: "preIdents [] = []"
  by (simp add: preIdents.simps)

lemma preIdents_eq_Nil: "(preIdents x = []) = (x = [])"
  by (subst preIdents.simps) simp

lemma Nil_less_iff: "([] < xs) = (xs \<noteq> [])"
  by (cases xs) simp_all

lemma cmp3_Cons_eq: "cmp3 (k # xs) (k # ys) = cmp3 xs ys"
  by (simp add: cmp3_def)

lemma cmp3_Cons_ne: "j \<noteq> k \<Longrightarrow> cmp3 (j # xs) (k # ys) = cmp3 j k"
  by (simp add: cmp3_def)

lemma loop_key:
  "preIdents x \<noteq> preIdents y \<Longrightarrow>
   comparePrereleaseLoop x y = cmp3 (map identKey (preIdents x)) (map identKey (preIdents y))"
proof (induction x y rule: comparePrereleaseLoop.induct)
  case (1 x y)
  show ?case
  proof (cases "x \<noteq> [] \<and> y \<noteq> []")
    case False
    show ?thesis
    proof (cases "x = []")
      case True
      then have "preIdents y \<noteq> []" using "1.prems" by (simp add: preIdents_Nil)
      then show ?thesis using True
        by (subst comparePrereleaseLoop.simps) (simp add: cmp3_def preIdents_Nil Nil_less_iff)
    next
      case xne: False
      then have "y = []" using False by simp
      then show ?thesis using xne
        by (subst comparePrereleaseLoop.simps)
           (simp add: cmp3_def preIdents_Nil preIdents_eq_Nil)
    qed
  next
    case ne: True
    let ?dx = "fst (nextIdent (tl x))" and ?dy = "fst (nextIdent (tl y))"
    let ?x' = "snd (nextIdent (tl x))" and ?y' = "snd (nextIdent (tl y))"
    have px: "preIdents x = ?dx # preIdents ?x'" using ne by (subst preIdents.simps) simp
    have py: "preIdents y = ?dy # preIdents ?y'" using ne by (subst preIdents.simps) simp
    show ?thesis
    proof (cases "?dx = ?dy")
      case True
      then have "preIdents ?x' \<noteq> preIdents ?y'" using "1.prems" px py by simp
      then have "comparePrereleaseLoop ?x' ?y' =
          cmp3 (map identKey (preIdents ?x')) (map identKey (preIdents ?y'))"
        using "1.IH" ne True by simp
      then show ?thesis using ne True
        by (subst comparePrereleaseLoop.simps) (simp add: px py cmp3_Cons_eq)
    next
      case False
      have "identKey ?dx \<noteq> identKey ?dy" using False by (simp add: identKey_inj)
      then show ?thesis using ne False
        by (subst comparePrereleaseLoop.simps)
           (simp add: px py compareIdent_key [OF False] cmp3_Cons_ne)
    qed
  qed
qed

lemma nextIdent_id: "fst (nextIdent s) @ snd (nextIdent s) = s"
  by (simp add: nextIdent_def)

lemma nextIdent_rest: "snd (nextIdent s) = [] \<or> hd (snd (nextIdent s)) = CHR ''.''"
  using hd_dropWhile [of "\<lambda>c. c \<noteq> CHR ''.''" s] by (auto simp: nextIdent_def)

lemma preIdents_inj:
  "preIdents x = preIdents y \<Longrightarrow> x = [] \<or> y = [] \<or> hd x = hd y \<Longrightarrow> x = y"
proof (induction x y rule: comparePrereleaseLoop.induct)
  case (1 x y)
  show ?case
  proof (cases "x \<noteq> [] \<and> y \<noteq> []")
    case False
    then show ?thesis using "1.prems"(1) preIdents_eq_Nil [of x] preIdents_eq_Nil [of y]
      by (auto simp: preIdents_Nil)
  next
    case ne: True
    let ?dx = "fst (nextIdent (tl x))" and ?dy = "fst (nextIdent (tl y))"
    let ?x' = "snd (nextIdent (tl x))" and ?y' = "snd (nextIdent (tl y))"
    have px: "preIdents x = ?dx # preIdents ?x'" using ne by (subst preIdents.simps) simp
    have py: "preIdents y = ?dy # preIdents ?y'" using ne by (subst preIdents.simps) simp
    from "1.prems"(1) px py have d: "?dx = ?dy" and r: "preIdents ?x' = preIdents ?y'" by simp_all
    have sep: "?x' = [] \<or> ?y' = [] \<or> hd ?x' = hd ?y'"
      using nextIdent_rest [of "tl x"] nextIdent_rest [of "tl y"] by auto
    have nd: "\<not> ?dx \<noteq> ?dy" using d by simp
    have "?x' = ?y'" by (rule "1.IH" [OF ne nd r sep])
    then have "?dx @ ?x' = ?dy @ ?y'" using d by simp
    then have "tl x = tl y" by (simp only: nextIdent_id)
    moreover have "hd x = hd y" using "1.prems"(2) ne by simp
    ultimately show ?thesis using ne by (simp add: list.expand)
  qed
qed

lemma comparePrerelease_key:
  "validPre x \<Longrightarrow> validPre y \<Longrightarrow> comparePrerelease x y = cmp3 (preKey x) (preKey y)"
proof -
  assume vx: "validPre x" and vy: "validPre y"
  show ?thesis
  proof (cases "x = y")
    case True then show ?thesis by (simp add: comparePrerelease_def cmp3_def)
  next
    case ne: False
    show ?thesis
    proof (cases "x = [] \<or> y = []")
      case True
      then show ?thesis using ne
        by (auto simp: comparePrerelease_def cmp3_def preKey_def)
    next
      case False
      then have "hd x = hd y" using vx vy by (simp add: validPre_def)
      then have "preIdents x \<noteq> preIdents y" using preIdents_inj [of x y] ne by blast
      then show ?thesis using False ne loop_key [of x y]
        by (auto simp: comparePrerelease_def cmp3_def preKey_def)
    qed
  qed
qed

lemma parsePrereleaseLoop_prefix:
  "parsePrereleaseLoop acc cur r = Some (t, r') \<Longrightarrow> \<exists>s. t = acc @ s"
  by (induction acc cur r rule: parsePrereleaseLoop.induct) (auto split: if_splits)

lemma parsePrerelease_valid: "parsePrerelease v = Some (t, r) \<Longrightarrow> validPre t"
  by (auto simp: parsePrerelease_def validPre_def split: if_splits
           dest!: parsePrereleaseLoop_prefix)

lemma parse_validPre: "parse v = Some p \<Longrightarrow> validPre (prerelease p)"
  by (auto simp: parse_def validPre_def [of "[]"] split: if_splits option.splits prod.splits
           dest: parsePrerelease_valid)

lemma Compare_key: "Compare v w = cmp3 (verKey v) (verKey w)"
proof (cases "parse v")
  case None
  then show ?thesis by (cases "parse w") (auto simp: Compare_def verKey_def cmp3_def)
next
  case (Some pv)
  show ?thesis
  proof (cases "parse w")
    case None
    then show ?thesis using Some by (auto simp: Compare_def verKey_def cmp3_def)
  next
    case (Some pw)
    have pre: "comparePrerelease (prerelease pv) (prerelease pw)
        = cmp3 (preKey (prerelease pv)) (preKey (prerelease pw))"
      using comparePrerelease_key parse_validPre \<open>parse v = Some pv\<close> Some by blast
    show ?thesis using \<open>parse v = Some pv\<close> Some
      by (auto simp: Compare_def verKey_def compareInt_key pre cmp3_def)
  qed
qed

lemma ModuleIdCompare_key: "ModuleIdCompare a b = cmp3 (idKey a) (idKey b)"
  by (auto simp: ModuleIdCompare_def strings_Compare_def Compare_key idKey_def cmp3_def)

lemma Compare_flip: "Compare w v = - Compare v w"
  by (simp add: Compare_key cmp3_flip [of "verKey v"])

lemma Compare_trans_le: "Compare u v \<le> 0 \<Longrightarrow> Compare v w \<le> 0 \<Longrightarrow> Compare u w \<le> 0"
  unfolding Compare_key cmp3_le0 by (rule order_trans)

lemma Compare_refl: "Compare v v = 0"
  by (simp add: Compare_key cmp3_eq0)

section \<open>Properties of \<open>ModuleIdCompare\<close>\<close>

text \<open>
  Claim C9, as stated, says that \<open>ModuleIdCompare\<close> is antisymmetric: a result of \<open>0\<close>
  would imply that the two identifiers are equal. Build metadata is ignored by the
  version comparison, so two different identifiers compare equal:
\<close>

theorem ModuleIdCompare_zero_counterexample:
  "ModuleIdCompare (NewModuleId ''example.com/m'' ''v1.0.0+a'')
                   (NewModuleId ''example.com/m'' ''v1.0.0+b'') = 0 \<and>
   NewModuleId ''example.com/m'' ''v1.0.0+a'' \<noteq> NewModuleId ''example.com/m'' ''v1.0.0+b''"
proof -
  have "ModuleIdCompare (NewModuleId ''example.com/m'' ''v1.0.0+a'')
                        (NewModuleId ''example.com/m'' ''v1.0.0+b'') = 0"
    by code_simp
  then show ?thesis by (simp add: NewModuleId_def)
qed

text \<open>
  Claim C9, amended. \<open>ModuleIdCompare\<close> is a total preorder on module identifiers: it
  compares the paths lexicographically and, for equal paths, the versions by
  semantic-version comparison; its result is \<open>-1\<close>, \<open>0\<close> or \<open>1\<close>; it is total (swapping
  the arguments negates the result), reflexive and transitive; and it returns \<open>0\<close> exactly
  when the paths are equal and the versions have equal semantic-version precedence,
  which does not imply that the identifiers are equal.
\<close>

theorem ModuleIdCompare_total_preorder:
  "ModuleIdCompare a b \<in> {- 1, 0, 1} \<and>
   ModuleIdCompare a b =
     (if Path a \<noteq> Path b then strings_Compare (Path a) (Path b)
      else Compare (Version a) (Version b)) \<and>
   strings_Compare (Path a) (Path b) = (if Path a = Path b then 0 else if Path a < Path b then - 1 else 1) \<and>
   ModuleIdCompare b a = - ModuleIdCompare a b \<and>
   ModuleIdCompare a a = 0 \<and>
   (ModuleIdCompare a b \<le> 0 \<and> ModuleIdCompare b c \<le> 0 \<longrightarrow> ModuleIdCompare a c \<le> 0) \<and>
   ((ModuleIdCompare a b = 0) = (Path a = Path b \<and> Compare (Version a) (Version b) = 0))"
proof -
  have "ModuleIdCompare a b \<in> {- 1, 0, 1}"
    unfolding ModuleIdCompare_key by (rule cmp3_range)
  moreover have "ModuleIdCompare a b =
     (if Path a \<noteq> Path b then strings_Compare (Path a) (Path b)
      else Compare (Version a) (Version b))"
    by (simp add: ModuleIdCompare_def strings_Compare_def)
  moreover have "strings_Compare (Path a) (Path b) =
     (if Path a = Path b then 0 else if Path a < Path b then - 1 else 1)"
    by (simp add: strings_Compare_def)
  moreover have "ModuleIdCompare b a = - ModuleIdCompare a b"
    unfolding ModuleIdCompare_key by (rule cmp3_flip)
  moreover have "ModuleIdCompare a a = 0"
    by (simp add: ModuleIdCompare_key cmp3_eq0)
  moreover have "ModuleIdCompare a b \<le> 0 \<and> ModuleIdCompare b c \<le> 0 \<longrightarrow> ModuleIdCompare a c \<le> 0"
    unfolding ModuleIdCompare_key cmp3_le0 by (blast intro: order_trans)
  moreover have "(ModuleIdCompare a b = 0) = (Path a = Path b \<and> Compare (Version a) (Version b) = 0)"
    by (auto simp: ModuleIdCompare_def strings_Compare_def)
  ultimately show ?thesis by blast
qed

theorem ModuleIdCompare_total_preorder_witness:
  "ModuleIdCompare (NewModuleId ''a'' ''v1.0.0'') (NewModuleId ''a'' ''v1.10.0'') = - 1 \<and>
   ModuleIdCompare (NewModuleId ''a'' ''v1.10.0'') (NewModuleId ''b'' ''v0.1.0'') = - 1 \<and>
   ModuleIdCompare (NewModuleId ''a'' ''v1.0.0'') (NewModuleId ''b'' ''v0.1.0'') \<le> 0 \<and>
   ModuleIdCompare (NewModuleId ''a'' ''v1.10.0'') (NewModuleId ''a'' ''v1.0.0'') = 1"
proof -
  have h1: "ModuleIdCompare (NewModuleId ''a'' ''v1.0.0'') (NewModuleId ''a'' ''v1.10.0'') = - 1"
    by code_simp
  have h2: "ModuleIdCompare (NewModuleId ''a'' ''v1.10.0'') (NewModuleId ''b'' ''v0.1.0'') = - 1"
    by code_simp
  show ?thesis
    using ModuleIdCompare_total_preorder
            [of "NewModuleId ''a'' ''v1.0.0''" "NewModuleId ''a'' ''v1.10.0''"
                "NewModuleId ''b'' ''v0.1.0''"]
          h1 h2
    by simp
qed


section \<open>Properties of \<open>computeSurpriseDeps\<close>\<close>

lemma sur_walk:
  "map_option (map_sum id (\<lambda>r. (fst r, fst (snd r))))
     (WalkRequirementGraph None (asRequirementGraph accept_all sur_rg) (Some sur_a1) (Some mvsVisit)
        None [] sur_sched)
   = Some (Inr (None, [(''example.com/a'', sur_a1), (''example.com/b'', sur_b)]))"
  by code_simp

lemma sur_eval:
  "computeSurpriseDeps accept_all None (asRequirementGraph accept_all sur_rg)
     \<lparr>dg_rg = asRequirementGraph accept_all sur_rg,
      dg_sel = [(''example.com/a'', sur_a1), (''example.com/b'', sur_b)], dg_surprise = []\<rparr> sur_a1
   = Inr [sur_a1]"
  "computeSurpriseDeps accept_all None (asRequirementGraph accept_all sur_rg)
     \<lparr>dg_rg = asRequirementGraph accept_all sur_rg,
      dg_sel = [(''example.com/a'', sur_a1), (''example.com/b'', sur_b)],
      dg_surprise = [(sur_a1, [sur_a1])]\<rparr> sur_b
   = Inr []"
  "DirectDeps sur_dg sur_a1 = Inr [sur_b]"
  "DirectDeps sur_dg sur_b = Inr [sur_a1]"
  "SurpriseDeps sur_dg sur_a1 = Inr [sur_a1]"
  by code_simp+

lemma sur_resolve:
  "ResolveMvs accept_all None (asRequirementGraph accept_all sur_rg) sur_sched = Some (Inr sur_dg)"
proof -
  have ne: "sur_a1 \<noteq> sur_b" by (simp add: sur_a1_def sur_b_def NewModuleId_def)
  have root: "Root (asRequirementGraph accept_all sur_rg) = Some sur_a1"
    by (simp add: asRequirementGraph_def requirementGraph_Root_def sur_rg_def)
  from sur_walk obtain tr where
    w: "WalkRequirementGraph None (asRequirementGraph accept_all sur_rg) (Some sur_a1)
          (Some mvsVisit) None [] sur_sched
        = Some (Inr (None, [(''example.com/a'', sur_a1), (''example.com/b'', sur_b)], tr))"
    by (cases "WalkRequirementGraph None (asRequirementGraph accept_all sur_rg) (Some sur_a1)
                 (Some mvsVisit) None [] sur_sched")
       (auto simp: map_sum_def split: sum.splits)
  show ?thesis
    unfolding ResolveMvs_def root w using sur_eval(1,2) ne by (simp add: sur_dg_def)
qed

text \<open>
  Claim C3 says that the surprise dependencies of a selected dependency \<open>d\<close> are disjoint
  from everything reachable from \<open>d\<close> through direct dependencies. The code does not
  keep to it. On the graph in which version 1.1.0 of \<open>a\<close> requires \<open>b\<close> directly and
  version 1.0.0 of \<open>a\<close> indirectly, and \<open>b\<close> requires version 1.0.0 of \<open>a\<close>, \<open>ResolveMvs\<close>
  selects version 1.1.0 of \<open>a\<close> and \<open>b\<close>; the search for the surprise dependencies of \<open>a\<close>
  puts \<open>a\<close> itself into \<open>seen\<close>, so it never takes \<open>a\<close> out of \<open>needles\<close>, and \<open>a\<close> is
  returned as a surprise dependency of \<open>a\<close> although it is a direct dependency of \<open>b\<close>,
  which is a direct dependency of \<open>a\<close>.
\<close>

theorem ResolveMvs_surprise_reachable:
  "ResolveMvs accept_all None (asRequirementGraph accept_all sur_rg) sur_sched = Some (Inr sur_dg) \<and>
   SurpriseDeps sur_dg sur_a1 = Inr [sur_a1] \<and>
   DirectDeps sur_dg sur_a1 = Inr [sur_b] \<and>
   DirectDeps sur_dg sur_b = Inr [sur_a1]"
  using sur_resolve sur_eval(3,4,5) by simp

section \<open>Properties of \<open>buildSatProblem\<close>\<close>

text \<open>
  Claim C6 says that the clause of a requirement edge holds the variables of all the
  versions of the required path that are at least the required version. The code does
  not keep to it. On the graph whose root requires \<open>x\<close> at \<open>v1.0.0+a\<close> and at \<open>v1.0.0+b\<close>,
  two versions that compare equal, the walk yields the root, then \<open>v1.0.0+a\<close>, then
  \<open>v1.0.0+b\<close>, the sort keeps that order, and the variables are 0, 1 and 2 (the literals
  1, 2 and 3). The clause of the edge from the root to \<open>v1.0.0+b\<close> is \<open>[-1, 3]\<close>: the inner
  loop starts at the variable of \<open>v1.0.0+b\<close> and leaves out the literal 2 of \<open>v1.0.0+a\<close>,
  whose version is not below the required one.
\<close>

theorem buildSatProblem_tie_omits_equal_version:
  "buildSatProblem pdqsort None (asRequirementGraph accept_all tie_rg) tie_sched
     = Some (Inr (tie_prob, [tie_root, tie_xa, tie_xb], [(tie_root, 0), (tie_xa, 1), (tie_xb, 2)])) \<and>
   Reqs (asRequirementGraph accept_all tie_rg) tie_root = Inr [(tie_xa, False), (tie_xb, False)] \<and>
   reqClauses [tie_root, tie_xa, tie_xb] [(tie_root, 0), (tie_xa, 1), (tie_xb, 2)] 0
       [(tie_xa, False), (tie_xb, False)]
     = Inr [PropClause [- 1, 2, 3], PropClause [- 1, 3]] \<and>
   PropClause [- 1, 2, 3] \<in> set (sat_constrs tie_prob) \<and>
   PropClause [- 1, 3] \<in> set (sat_constrs tie_prob) \<and>
   Path tie_xa = Path tie_xb \<and>
   Compare (Version tie_xa) (Version tie_xb) = 0"
  by code_simp

section \<open>Properties of \<open>walkGraph\<close>: the order of the callbacks\<close>

lemma inflightDone_fields [simp]:
  "seen (inflightDone w) = seen w" "ready (inflightDone w) = ready w"
  "senders (inflightDone w) = senders w" "nodeTasks (inflightDone w) = nodeTasks w"
  "edgeTasks (inflightDone w) = edgeTasks w" "looping (inflightDone w) = looping w"
  "cancelled (inflightDone w) = cancelled w" "firstErr (inflightDone w) = firstErr w"
  "cb (inflightDone w) = cb w" "trace (inflightDone w) = trace w"
  by (simp_all add: inflightDone_def)

lemma fail_fields [simp]:
  "seen (fail e w) = seen w" "ready (fail e w) = ready w"
  "senders (fail e w) = senders w" "nodeTasks (fail e w) = nodeTasks w"
  "edgeTasks (fail e w) = edgeTasks w" "looping (fail e w) = looping w"
  "inflight (fail e w) = inflight w" "qclosed (fail e w) = qclosed w"
  "panicked (fail e w) = panicked w"
  "cb (fail e w) = cb w" "trace (fail e w) = trace w"
  "firstErr (fail e w) \<noteq> None"
  by (simp_all add: fail_def split: option.splits)

lemma panic_fields [simp]:
  "seen (panic e w) = seen w" "ready (panic e w) = ready w"
  "senders (panic e w) = senders w" "nodeTasks (panic e w) = nodeTasks w"
  "edgeTasks (panic e w) = edgeTasks w" "looping (panic e w) = looping w"
  "inflight (panic e w) = inflight w" "qclosed (panic e w) = qclosed w"
  "cancelled (panic e w) = cancelled w" "firstErr (panic e w) = firstErr w"
  "cb (panic e w) = cb w" "trace (panic e w) = trace w"
  "panicked (panic e w) = Some e"
  by (simp_all add: panic_def)

lemma run_invariant:
  assumes pres: "\<And>ch w w'. I w \<Longrightarrow> step ps ch w = Some w' \<Longrightarrow> I w'"
  shows "I w \<Longrightarrow> run ps sched w = Some w' \<Longrightarrow> I w'"
proof (induction sched arbitrary: w)
  case Nil
  then show ?case by simp
next
  case (Cons ch sched)
  from Cons.prems(2) obtain w1 where s: "step ps ch w = Some w1" and r: "run ps sched w1 = Some w'"
    by (cases "step ps ch w") simp_all
  from pres [OF Cons.prems(1) s] have "I w1" .
  from Cons.IH [OF this r] show ?case .
qed

lemma edgeOrdered_snoc_other:
  assumes "edgeOrdered es" and "\<And>p m c. e \<noteq> EdgeVisitCall p m c"
  shows "edgeOrdered (es @ [e])"
  unfolding edgeOrdered_def
proof (intro allI impI)
  fix es1 p m c es2
  assume eq: "es @ [e] = es1 @ EdgeVisitCall p m c # es2"
  show "(\<exists>b. NodeVisitReturn p b \<in> set es1) \<and> (\<exists>b. NodeVisitReturn m b \<in> set es1)"
  proof (cases es2 rule: rev_cases)
    case Nil
    with eq have "e = EdgeVisitCall p m c" by simp
    with assms(2) show ?thesis by blast
  next
    case (snoc ys y)
    with eq have "es = es1 @ EdgeVisitCall p m c # ys" by simp
    with assms(1) show ?thesis unfolding edgeOrdered_def by blast
  qed
qed

lemma edgeOrdered_snoc_edge:
  assumes "edgeOrdered es" and "NodeVisitReturn p b1 \<in> set es" and "NodeVisitReturn m b2 \<in> set es"
  shows "edgeOrdered (es @ [EdgeVisitCall p m c])"
  unfolding edgeOrdered_def
proof (intro allI impI)
  fix es1 p' m' c' es2
  assume eq: "es @ [EdgeVisitCall p m c] = es1 @ EdgeVisitCall p' m' c' # es2"
  show "(\<exists>b. NodeVisitReturn p' b \<in> set es1) \<and> (\<exists>b. NodeVisitReturn m' b \<in> set es1)"
  proof (cases es2 rule: rev_cases)
    case Nil
    with eq have "es1 = es" "p' = p" "m' = m" by simp_all
    with assms(2,3) show ?thesis by blast
  next
    case (snoc ys y)
    with eq have "es = es1 @ EdgeVisitCall p' m' c' # ys" by simp
    with assms(1) show ?thesis unfolding edgeOrdered_def by blast
  qed
qed

lemma readyReturned_init: "readyReturned (initWalk ps c start s)"
  by (simp add: readyReturned_def initWalk_def edgeOrdered_def)

lemma readyReturned_step:
  assumes nv: "nodeVisit ps = Some nv" and inv: "readyReturned w" and st: "step ps ch w = Some w'"
  shows "readyReturned w'"
proof (cases ch)
  case (Receive qe)
  with st inv show ?thesis
    by (auto simp: receive_def readyReturned_def Let_def split: if_splits)
next
  case (SendAbort qe)
  with st inv show ?thesis
    by (auto simp: sendAbort_def readyReturned_def split: if_splits option.splits)
next
  case (EdgeAbort t)
  with st inv show ?thesis
    by (auto simp: edgeAbort_def readyReturned_def split: if_splits option.splits)
next
  case LoopAbort
  with st inv show ?thesis
    by (auto simp: loopAbort_def readyReturned_def split: if_splits option.splits)
next
  case LoopExit
  with st inv show ?thesis
    by (auto simp: loopExit_def readyReturned_def split: if_splits)
next
  case (VisitCall m)
  with st inv nv show ?thesis
    by (auto simp: visitCall_def readyReturned_def edgeOrdered_snoc_other split: if_splits)
next
  case (VisitReturn m)
  from st VisitReturn have en: "(m, Visiting) \<in> set (nodeTasks w)" "panicked w = None"
    by (auto simp: visitReturn_def split: if_splits)
  obtain r s' where r: "nv (cancelled w) m (cb w) = (r, s')" by (cases "nv (cancelled w) m (cb w)")
  show ?thesis
  proof (cases r)
    case (Inl f)
    with st VisitReturn nv en r inv show ?thesis
      by (cases f) (auto simp: visitReturn_def readyReturned_def)
  next
    case (Inr d)
    have eo: "edgeOrdered (trace w @ [NodeVisitReturn m d])"
      using inv by (intro edgeOrdered_snoc_other) (simp_all add: readyReturned_def)
    have rd: "\<forall>x \<in> set (ready w @ [m]). \<exists>b. NodeVisitReturn x b \<in> set (trace w @ [NodeVisitReturn m d])"
      using inv by (auto simp: readyReturned_def)
    from st VisitReturn nv en r Inr have
      "trace w' = trace w @ [NodeVisitReturn m d] \<and> ready w' = ready w @ [m]"
      by (auto simp: visitReturn_def Let_def split: if_splits)
    with eo rd show ?thesis by (simp add: readyReturned_def)
  qed
next
  case (Descend m)
  have e1: "edgeOrdered (trace w @ [LoadCall m])"
    using inv by (intro edgeOrdered_snoc_other) (simp_all add: readyReturned_def)
  have e2: "edgeOrdered (trace w @ [EdgesCall m])"
    using inv by (intro edgeOrdered_snoc_other) (simp_all add: readyReturned_def)
  have e3: "edgeOrdered ((trace w @ [LoadCall m]) @ [EdgesCall m])"
    by (rule edgeOrdered_snoc_other [OF e1]) simp
  from st Descend inv e1 e2 e3 show ?thesis
    by (auto simp: descend_def enqueueEdges_def readyReturned_def Let_def
             split: if_splits option.splits sum.splits failure.splits)
next
  case (EdgeVisit t)
  obtain p m c k where t: "t = ((p, m, c), k)" by (cases t) auto
  from st EdgeVisit t obtain ev where ev: "edgeVisit ps = Some ev"
    and en: "t \<in> set (edgeTasks w)" "m \<in> set (ready w)" "panicked w = None"
    by (auto simp: edgeVisitStep_def split: if_splits option.splits)
  show ?thesis
  proof (cases "k \<and> p \<in> set (ready w)")
    case False
    with st EdgeVisit t ev en inv show ?thesis
      by (auto simp: edgeVisitStep_def readyReturned_def)
  next
    case True
    from inv have rr: "\<forall>x \<in> set (ready w). \<exists>b. NodeVisitReturn x b \<in> set (trace w)"
      by (simp add: readyReturned_def)
    from rr True obtain b1 where "NodeVisitReturn p b1 \<in> set (trace w)" by blast
    moreover from rr en(2) obtain b2 where "NodeVisitReturn m b2 \<in> set (trace w)" by blast
    ultimately have "NodeVisitReturn p b1 \<in> set (trace w)" "NodeVisitReturn m b2 \<in> set (trace w)"
      by simp_all
    with inv have eo: "edgeOrdered (trace w @ [EdgeVisitCall p m c])"
      by (intro edgeOrdered_snoc_edge) (simp_all add: readyReturned_def)
    obtain r s' where r: "ev (cancelled w) p m c (cb w) = (r, s')"
      by (cases "ev (cancelled w) p m c (cb w)")
    from st EdgeVisit t ev en True r have
      "(trace w' = trace w @ [EdgeVisitCall p m c] \<or> trace w' = trace w) \<and> ready w' = ready w"
      by (auto simp: edgeVisitStep_def Let_def split: if_splits option.splits failure.splits)
    with eo inv show ?thesis by (auto simp: readyReturned_def)
  qed
next
  case CtxCancel
  with st inv show ?thesis
    by (auto simp: ctxCancel_def readyReturned_def split: if_splits option.splits)
qed

text \<open>
  Claim C4. In every run of the walker with a \<open>nodeVisit\<close> callback, over any graph
  (cyclic or not), under every schedule and at every point of the run: when \<open>edgeVisit\<close>
  is called for an edge from \<open>p\<close> to \<open>m\<close>, the calls of \<open>nodeVisit\<close> for \<open>p\<close> and for \<open>m\<close>
  have both returned before.
\<close>

theorem walkGraph_edgeVisit_after_nodeVisits:
  assumes nv: "nodeVisit ps = Some nv"
    and r: "run ps sched (initWalk ps c start s) = Some w"
    and t: "trace w = es1 @ EdgeVisitCall p m col # es2"
  shows "(\<exists>b. NodeVisitReturn p b \<in> set es1) \<and> (\<exists>b. NodeVisitReturn m b \<in> set es1)"
proof -
  have "readyReturned w"
    by (rule run_invariant [where I = readyReturned, OF readyReturned_step [OF nv] readyReturned_init r])
  with t show ?thesis unfolding readyReturned_def edgeOrdered_def by blast
qed

theorem walkGraph_edgeVisit_after_nodeVisits_witness:
  "map_option trace (run cyc_ps cyc_sched (initWalk cyc_ps None ''a'' [])) =
     Some ([NodeVisitCall ''a'', NodeVisitReturn ''a'' True, LoadCall ''a'', EdgesCall ''a'',
            NodeVisitCall ''b'', NodeVisitReturn ''b'' True, EdgeVisitCall ''a'' ''b'' ''red'',
            LoadCall ''b'', EdgesCall ''b''] @ EdgeVisitCall ''b'' ''a'' ''blue'' # []) \<and>
   (\<exists>b. NodeVisitReturn ''b'' b \<in> set [NodeVisitCall ''a'', NodeVisitReturn ''a'' True,
            LoadCall ''a'', EdgesCall ''a'', NodeVisitCall ''b'', NodeVisitReturn ''b'' True,
            EdgeVisitCall ''a'' ''b'' ''red'', LoadCall ''b'', EdgesCall ''b'']) \<and>
   (\<exists>b. NodeVisitReturn ''a'' b \<in> set [NodeVisitCall ''a'', NodeVisitReturn ''a'' True,
            LoadCall ''a'', EdgesCall ''a'', NodeVisitCall ''b'', NodeVisitReturn ''b'' True,
            EdgeVisitCall ''a'' ''b'' ''red'', LoadCall ''b'', EdgesCall ''b''])"
proof -
  let ?es1 = "[NodeVisitCall ''a'', NodeVisitReturn ''a'' True, LoadCall ''a'', EdgesCall ''a'',
            NodeVisitCall ''b'', NodeVisitReturn ''b'' True, EdgeVisitCall ''a'' ''b'' ''red'',
            LoadCall ''b'', EdgesCall ''b'']"
  have tr: "map_option trace (run cyc_ps cyc_sched (initWalk cyc_ps None ''a'' [])) =
     Some (?es1 @ EdgeVisitCall ''b'' ''a'' ''blue'' # [])"
    by code_simp
  then obtain w where r: "run cyc_ps cyc_sched (initWalk cyc_ps None ''a'' []) = Some w"
    and t: "trace w = ?es1 @ EdgeVisitCall ''b'' ''a'' ''blue'' # []"
    by (cases "run cyc_ps cyc_sched (initWalk cyc_ps None ''a'' [])") auto
  have nv: "nodeVisit cyc_ps = Some (\<lambda>c m s. (Inr True, s @ [m]))"
    by (simp add: cyc_ps_def)
  from walkGraph_edgeVisit_after_nodeVisits [OF nv r t] tr show ?thesis by simp
qed

section \<open>Properties of \<open>walkGraph\<close>: every node and edge once\<close>

lemma panicked_inflightDone: "panicked (inflightDone w) = None \<Longrightarrow> panicked w = None"
  by (simp add: inflightDone_def split: if_splits)

lemma receive_effect:
  assumes "receive ps qe w = Some w'" and "panicked w' = None"
  shows "qe \<in> set (senders w) \<and> trace w' = trace w \<and> ready w' = ready w \<and>
         cb w' = cb w \<and> firstErr w' = firstErr w \<and>
         senders w' = remove1 qe (senders w) \<and>
         seen w' = (if fst (snd qe) \<in> set (seen w) then seen w else seen w @ [fst (snd qe)]) \<and>
         nodeTasks w' = (if fst (snd qe) \<in> set (seen w) then nodeTasks w
                         else nodeTasks w @ [(fst (snd qe), Spawned)]) \<and>
         edgeTasks w' = (if edgeVisit ps \<noteq> None \<and> fst qe \<noteq> zeroN ps
                         then edgeTasks w @ [(qe, fst qe \<in> set (seen w'))] else edgeTasks w)"
proof -
  from assms have en: "qe \<in> set (senders w)" "\<not> qclosed w" "looping w"
    by (auto simp: receive_def split: if_splits)
  define w1 where "w1 = w\<lparr>senders := remove1 qe (senders w)\<rparr>"
  define w2 where "w2 = (if fst (snd qe) \<in> set (seen w1) then w1
                  else w1\<lparr>seen := seen w1 @ [fst (snd qe)], inflight := inflight w1 + 1,
                          nodeTasks := nodeTasks w1 @ [(fst (snd qe), Spawned)]\<rparr>)"
  define w3 where "w3 = (if edgeVisit ps \<noteq> None \<and> fst qe \<noteq> zeroN ps
                  then w2\<lparr>inflight := inflight w2 + 1,
                          edgeTasks := edgeTasks w2 @ [(qe, fst qe \<in> set (seen w2))]\<rparr>
                  else w2)"
  have "receive ps qe w = Some (inflightDone w3)"
    using en unfolding receive_def Let_def w3_def w2_def w1_def by simp
  with assms(1) have w': "w' = inflightDone w3" by simp
  have f1: "trace w1 = trace w" "ready w1 = ready w" "cb w1 = cb w" "firstErr w1 = firstErr w"
    "senders w1 = remove1 qe (senders w)" "seen w1 = seen w" "nodeTasks w1 = nodeTasks w"
    "edgeTasks w1 = edgeTasks w"
    by (simp_all add: w1_def)
  have f2: "trace w2 = trace w" "ready w2 = ready w" "cb w2 = cb w" "firstErr w2 = firstErr w"
    "senders w2 = remove1 qe (senders w)"
    "seen w2 = (if fst (snd qe) \<in> set (seen w) then seen w else seen w @ [fst (snd qe)])"
    "nodeTasks w2 = (if fst (snd qe) \<in> set (seen w) then nodeTasks w
                         else nodeTasks w @ [(fst (snd qe), Spawned)])"
    "edgeTasks w2 = edgeTasks w"
    by (simp_all add: w2_def f1)
  have f3: "trace w3 = trace w" "ready w3 = ready w" "cb w3 = cb w" "firstErr w3 = firstErr w"
    "senders w3 = remove1 qe (senders w)"
    "seen w3 = seen w2"
    "nodeTasks w3 = nodeTasks w2"
    "edgeTasks w3 = (if edgeVisit ps \<noteq> None \<and> fst qe \<noteq> zeroN ps
                         then edgeTasks w @ [(qe, fst qe \<in> set (seen w2))] else edgeTasks w)"
    by (simp_all add: w3_def f2)
  show ?thesis unfolding w' using en(1) by (simp add: f3 f2)
qed

lemma visitCall_effect:
  assumes "visitCall ps m w = Some w'" and "nodeVisit ps = Some nv"
  shows "(m, Spawned) \<in> set (nodeTasks w) \<and> trace w' = trace w @ [NodeVisitCall m] \<and>
         ready w' = ready w \<and> cb w' = cb w \<and> firstErr w' = firstErr w \<and>
         senders w' = senders w \<and> seen w' = seen w \<and> edgeTasks w' = edgeTasks w \<and>
         nodeTasks w' = remove1 (m, Spawned) (nodeTasks w) @ [(m, Visiting)]"
  using assms by (auto simp: visitCall_def split: if_splits)

lemma visitReturn_effect:
  assumes "visitReturn ps m w = Some w'" and "nodeVisit ps = Some nv"
    and "panicked w' = None" and "firstErr w' = None"
  shows "\<exists>d. (m, Visiting) \<in> set (nodeTasks w) \<and> trace w' = trace w @ [NodeVisitReturn m d] \<and>
         ready w' = ready w @ [m] \<and> nv (cancelled w) m (cb w) = (Inr d, cb w') \<and>
         senders w' = senders w \<and> seen w' = seen w \<and> edgeTasks w' = edgeTasks w \<and>
         nodeTasks w' = remove1 (m, Visiting) (nodeTasks w) @ (if d then [(m, Loading)] else [])"
proof -
  from assms(1) have en: "(m, Visiting) \<in> set (nodeTasks w)"
    by (auto simp: visitReturn_def split: if_splits)
  obtain r s' where r: "nv (cancelled w) m (cb w) = (r, s')" by (cases "nv (cancelled w) m (cb w)")
  show ?thesis
  proof (cases r)
    case (Inl f)
    with assms en r show ?thesis
      by (cases f) (auto simp: visitReturn_def)
  next
    case (Inr d)
    show ?thesis
    proof (cases d)
      case True
      with assms(1,2) en r Inr have
        "w' = w\<lparr>cb := s', trace := trace w @ [NodeVisitReturn m True], ready := ready w @ [m],
                nodeTasks := remove1 (m, Visiting) (nodeTasks w) @ [(m, Loading)]\<rparr>"
        by (simp add: visitReturn_def Let_def)
      then show ?thesis using en r Inr True by (intro exI [of _ True]) simp
    next
      case False
      with assms(1,2) en r Inr have
        "w' = inflightDone (w\<lparr>cb := s', trace := trace w @ [NodeVisitReturn m False],
                ready := ready w @ [m], nodeTasks := remove1 (m, Visiting) (nodeTasks w)\<rparr>)"
        by (simp add: visitReturn_def Let_def)
      then show ?thesis using en r Inr False by (intro exI [of _ False]) simp
    qed
  qed
qed

lemma descend_effect:
  assumes "descend ps m w = Some w'"
    and "panicked w' = None" and "firstErr w' = None"
  shows "\<exists>es. (m, Loading) \<in> set (nodeTasks w) \<and> edges ps m = Inr es \<and>
         trace w' = trace w @ (if load ps = None then [] else [LoadCall m]) @ [EdgesCall m] \<and>
         ready w' = ready w \<and> cb w' = cb w \<and>
         senders w' = senders w @ map (\<lambda>(child, color). (m, child, color)) es \<and>
         seen w' = seen w \<and> edgeTasks w' = edgeTasks w \<and>
         nodeTasks w' = remove1 (m, Loading) (nodeTasks w)"
proof -
  from assms(1) have en: "(m, Loading) \<in> set (nodeTasks w)"
    by (auto simp: descend_def split: if_splits)
  show ?thesis
  proof (cases "load ps")
    case None
    show ?thesis
    proof (cases "edges ps m")
      case (Inl f)
      with assms en None show ?thesis
        by (auto simp: descend_def Let_def enqueueEdges_def)
    next
      case es: (Inr es)
      with assms(1) en None have
        "w' = inflightDone
            (w\<lparr>nodeTasks := remove1 (m, Loading) (nodeTasks w),
               senders := senders w @ map (\<lambda>(child, color). (m, child, color)) es,
               inflight := inflight w + int (length es),
               trace := trace w @ [EdgesCall m]\<rparr>)"
        by (simp add: descend_def Let_def enqueueEdges_def)
      then show ?thesis using en es None by (intro exI [of _ es]) simp
    qed
  next
    case (Some ld)
    show ?thesis
    proof (cases "ld (cancelled w) m")
      case (Inl f)
      with assms en Some show ?thesis
        by (cases f) (auto simp: descend_def Let_def)
    next
      case (Inr u)
      show ?thesis
      proof (cases "edges ps m")
        case (Inl f)
        with assms en Inr Some show ?thesis
          by (auto simp: descend_def Let_def enqueueEdges_def)
      next
        case es: (Inr es)
        with assms(1) en Inr Some have
          "w' = inflightDone
              (w\<lparr>nodeTasks := remove1 (m, Loading) (nodeTasks w),
                 trace := trace w @ [LoadCall m],
                 senders := senders w @ map (\<lambda>(child, color). (m, child, color)) es,
                 inflight := inflight w + int (length es),
                 trace := (trace w @ [LoadCall m]) @ [EdgesCall m]\<rparr>)"
          by (simp add: descend_def Let_def enqueueEdges_def)
        then show ?thesis using en es Some by (intro exI [of _ es]) simp
      qed
    qed
  qed
qed

lemma edgeVisitStep_effect:
  assumes "edgeVisitStep ps t w = Some w'"
    and "panicked w' = None" and "firstErr w' = None"
  shows "\<exists>ev. edgeVisit ps = Some ev \<and> t \<in> set (edgeTasks w) \<and>
         trace w' = trace w @ [EdgeVisitCall (fst (fst t)) (fst (snd (fst t))) (snd (snd (fst t)))] \<and>
         ready w' = ready w \<and>
         ev (cancelled w) (fst (fst t)) (fst (snd (fst t))) (snd (snd (fst t))) (cb w) = (None, cb w') \<and>
         senders w' = senders w \<and> seen w' = seen w \<and> nodeTasks w' = nodeTasks w \<and>
         edgeTasks w' = remove1 t (edgeTasks w)"
proof -
  from assms(1) obtain ev where ev: "edgeVisit ps = Some ev"
    and en: "t \<in> set (edgeTasks w)" "fst (snd (fst t)) \<in> set (ready w)"
    by (auto simp: edgeVisitStep_def split: if_splits option.splits)
  show ?thesis
  proof (cases "snd t \<and> fst (fst t) \<in> set (ready w)")
    case False
    with assms ev en show ?thesis by (auto simp: edgeVisitStep_def)
  next
    case True
    obtain r s' where r: "ev (cancelled w) (fst (fst t)) (fst (snd (fst t))) (snd (snd (fst t))) (cb w) = (r, s')"
      by (cases "ev (cancelled w) (fst (fst t)) (fst (snd (fst t))) (snd (snd (fst t))) (cb w)")
    show ?thesis
    proof (cases r)
      case None
      with assms(1) ev en True r have
        "w' = inflightDone (w\<lparr>cb := s', edgeTasks := remove1 t (edgeTasks w),
               trace := trace w @ [EdgeVisitCall (fst (fst t)) (fst (snd (fst t))) (snd (snd (fst t)))]\<rparr>)"
        by (simp add: edgeVisitStep_def Let_def)
      then show ?thesis using ev en r None by simp
    next
      case (Some f)
      with assms ev en True r show ?thesis
        by (cases f) (auto simp: edgeVisitStep_def Let_def)
    qed
  qed
qed

lemma step_firstErr_mono:
  assumes "step ps ch w = Some w'" and "firstErr w' = None"
  shows "firstErr w = None"
proof (cases ch)
  case (Receive qe)
  with assms show ?thesis
    by (auto simp: receive_def Let_def split: if_splits)
next
  case (VisitCall m)
  with assms show ?thesis
    by (auto simp: visitCall_def split: if_splits option.splits)
next
  case (VisitReturn m)
  with assms show ?thesis
    by (auto simp: visitReturn_def Let_def split: if_splits option.splits sum.splits failure.splits prod.splits)
next
  case (Descend m)
  with assms show ?thesis
    by (auto simp: descend_def enqueueEdges_def Let_def split: if_splits option.splits sum.splits failure.splits)
next
  case (EdgeVisit t)
  with assms show ?thesis
    by (auto simp: edgeVisitStep_def Let_def split: if_splits option.splits failure.splits prod.splits)
qed (use assms in \<open>auto simp: sendAbort_def edgeAbort_def loopAbort_def loopExit_def ctxCancel_def
       split: if_splits option.splits\<close>)

lemma nodeCalls_append [simp]: "nodeCalls (xs @ ys) = nodeCalls xs @ nodeCalls ys"
  by (induction xs rule: nodeCalls.induct) simp_all

lemma nodeReturns_append [simp]: "nodeReturns (xs @ ys) = nodeReturns xs @ nodeReturns ys"
  by (induction xs rule: nodeReturns.induct) simp_all

lemma loadCalls_append [simp]: "loadCalls (xs @ ys) = loadCalls xs @ loadCalls ys"
  by (induction xs rule: loadCalls.induct) simp_all

lemma edgesCalls_append [simp]: "edgesCalls (xs @ ys) = edgesCalls xs @ edgesCalls ys"
  by (induction xs rule: edgesCalls.induct) simp_all

lemma edgeCalls_append [simp]: "edgeCalls (xs @ ys) = edgeCalls xs @ edgeCalls ys"
  by (induction xs rule: edgeCalls.induct) simp_all

lemma descended_append [simp]: "descended (xs @ ys) = descended xs @ descended ys"
  by (simp add: descended_def)

lemma descended_simps [simp]:
  "descended [] = []"
  "descended (NodeVisitCall m # es) = descended es"
  "descended (NodeVisitReturn m d # es) = (if d then m # descended es else descended es)"
  "descended (LoadCall m # es) = descended es"
  "descended (EdgesCall m # es) = descended es"
  "descended (EdgeVisitCall p m c # es) = descended es"
  by (simp_all add: descended_def)

lemma discovered_append [simp]: "discovered ps (xs @ ys) = discovered ps xs @ discovered ps ys"
  by (simp add: discovered_def)

lemma discovered_simps [simp]:
  "discovered ps [] = []"
  "discovered ps (NodeVisitCall m # es) = discovered ps es"
  "discovered ps (NodeVisitReturn m d # es) = discovered ps es"
  "discovered ps (LoadCall m # es) = discovered ps es"
  "discovered ps (EdgesCall m # es) =
     filter (\<lambda>qe. fst qe \<noteq> zeroN ps) (edgesOf ps m) @ discovered ps es"
  "discovered ps (EdgeVisitCall p m c # es) = discovered ps es"
  by (simp_all add: discovered_def)

lemma atStage_simps [simp]:
  "atStage st [] = []"
  "atStage st (ts @ us) = atStage st ts @ atStage st us"
  "atStage st [(m, st')] = (if st' = st then [m] else [])"
  by (simp_all add: atStage_def)

lemma atStage_mset:
  "mset (atStage st ts) = image_mset fst (filter_mset (\<lambda>t. snd t = st) (mset ts))"
  unfolding atStage_def by (simp only: mset_map mset_filter)

lemma mset_remove1_add: "x \<in> set xs \<Longrightarrow> mset xs = add_mset x (mset (remove1 x xs))"
  by (induction xs) auto

lemma atStage_remove1:
  assumes "(m, st') \<in> set ts"
  shows "mset (atStage st ts) =
     mset (atStage st (remove1 (m, st') ts)) + (if st' = st then {#m#} else {#})"
proof -
  have "mset (atStage st ts) =
      image_mset fst (filter_mset (\<lambda>t. snd t = st) (add_mset (m, st') (mset (remove1 (m, st') ts))))"
    unfolding atStage_mset using mset_remove1_add [OF assms] by (rule_tac arg_cong)
  also have "\<dots> = mset (atStage st (remove1 (m, st') ts)) + (if st' = st then {#m#} else {#})"
    unfolding atStage_mset by simp
  finally show ?thesis .
qed

lemma filter_remove1_mset:
  assumes "x \<in> set xs"
  shows "mset (filter P xs) = mset (filter P (remove1 x xs)) + (if P x then {#x#} else {#})"
proof -
  have "mset (filter P xs) = filter_mset P (add_mset x (mset (remove1 x xs)))"
    unfolding mset_filter using mset_remove1_add [OF assms] by (rule_tac arg_cong)
  also have "\<dots> = mset (filter P (remove1 x xs)) + (if P x then {#x#} else {#})"
    by simp
  finally show ?thesis .
qed

lemma map_fst_remove1_mset:
  assumes "t \<in> set ts"
  shows "mset (map fst ts) = add_mset (fst t) (mset (map fst (remove1 t ts)))"
proof -
  have "mset (map fst ts) = image_mset fst (add_mset t (mset (remove1 t ts)))"
    unfolding mset_map using mset_remove1_add [OF assms] by (rule_tac arg_cong)
  then show ?thesis by simp
qed

lemma step_ok_cases [consumes 4, case_names Receive Idle VisitCall VisitReturn Descend EdgeVisit]:
  assumes st: "step ps ch w = Some w'" and ok: "firstErr w' = None" "panicked w' = None"
    and nv: "nodeVisit ps = Some nv"
  obtains
    (Receive) qe where "qe \<in> set (senders w)" "trace w' = trace w"
      "senders w' = remove1 qe (senders w)"
      "seen w' = (if fst (snd qe) \<in> set (seen w) then seen w else seen w @ [fst (snd qe)])"
      "nodeTasks w' = (if fst (snd qe) \<in> set (seen w) then nodeTasks w
                       else nodeTasks w @ [(fst (snd qe), Spawned)])"
      "edgeTasks w' = (if edgeVisit ps \<noteq> None \<and> fst qe \<noteq> zeroN ps
                       then edgeTasks w @ [(qe, fst qe \<in> set (seen w'))] else edgeTasks w)"
      "ready w' = ready w" "cb w' = cb w"
  | (Idle) "trace w' = trace w" "senders w' = senders w" "seen w' = seen w"
      "nodeTasks w' = nodeTasks w" "edgeTasks w' = edgeTasks w" "ready w' = ready w" "cb w' = cb w"
  | (VisitCall) m where "(m, Spawned) \<in> set (nodeTasks w)"
      "trace w' = trace w @ [NodeVisitCall m]" "senders w' = senders w" "seen w' = seen w"
      "nodeTasks w' = remove1 (m, Spawned) (nodeTasks w) @ [(m, Visiting)]"
      "edgeTasks w' = edgeTasks w" "ready w' = ready w" "cb w' = cb w"
  | (VisitReturn) m d where "(m, Visiting) \<in> set (nodeTasks w)"
      "trace w' = trace w @ [NodeVisitReturn m d]" "senders w' = senders w" "seen w' = seen w"
      "nodeTasks w' = remove1 (m, Visiting) (nodeTasks w) @ (if d then [(m, Loading)] else [])"
      "edgeTasks w' = edgeTasks w" "ready w' = ready w @ [m]"
      "nv (cancelled w) m (cb w) = (Inr d, cb w')"
  | (Descend) m es where "(m, Loading) \<in> set (nodeTasks w)" "edges ps m = Inr es"
      "trace w' = trace w @ (if load ps = None then [] else [LoadCall m]) @ [EdgesCall m]"
      "senders w' = senders w @ map (\<lambda>(child, color). (m, child, color)) es" "seen w' = seen w"
      "nodeTasks w' = remove1 (m, Loading) (nodeTasks w)"
      "edgeTasks w' = edgeTasks w" "ready w' = ready w" "cb w' = cb w"
  | (EdgeVisit) t ev where "edgeVisit ps = Some ev" "t \<in> set (edgeTasks w)"
      "trace w' = trace w @ [EdgeVisitCall (fst (fst t)) (fst (snd (fst t))) (snd (snd (fst t)))]"
      "senders w' = senders w" "seen w' = seen w" "nodeTasks w' = nodeTasks w"
      "edgeTasks w' = remove1 t (edgeTasks w)" "ready w' = ready w"
      "ev (cancelled w) (fst (fst t)) (fst (snd (fst t))) (snd (snd (fst t))) (cb w) = (None, cb w')"
proof -
  from st have np: "panicked w = None" by (simp split: if_splits)
  show thesis
  proof (cases ch)
    case (Receive qe)
    with st np have "receive ps qe w = Some w'" by simp
    from receive_effect [OF this ok(2)] show thesis by (intro that(1) [of qe]) simp_all
  next
    case (SendAbort qe)
    with st np ok show thesis
      by (auto simp: sendAbort_def split: option.splits if_splits)
  next
    case (EdgeAbort t)
    with st np ok show thesis
      by (auto simp: edgeAbort_def split: option.splits if_splits)
  next
    case LoopAbort
    with st np ok show thesis
      by (auto simp: loopAbort_def split: option.splits if_splits)
  next
    case LoopExit
    with st np show thesis
      by (intro that(2)) (auto simp: loopExit_def split: if_splits)
  next
    case (VisitCall m)
    with st np have "visitCall ps m w = Some w'" by simp
    from visitCall_effect [OF this nv] show thesis by (intro that(3) [of m]) simp_all
  next
    case (VisitReturn m)
    with st np have "visitReturn ps m w = Some w'" by simp
    from visitReturn_effect [OF this nv ok(2) ok(1)] obtain d where
      "(m, Visiting) \<in> set (nodeTasks w) \<and> trace w' = trace w @ [NodeVisitReturn m d] \<and>
         ready w' = ready w @ [m] \<and> nv (cancelled w) m (cb w) = (Inr d, cb w') \<and>
         senders w' = senders w \<and> seen w' = seen w \<and> edgeTasks w' = edgeTasks w \<and>
         nodeTasks w' = remove1 (m, Visiting) (nodeTasks w) @ (if d then [(m, Loading)] else [])"
      by blast
    then show thesis by (intro that(4) [of m d]) simp_all
  next
    case (Descend m)
    with st np have "descend ps m w = Some w'" by simp
    from descend_effect [OF this ok(2) ok(1)] obtain es where
      "(m, Loading) \<in> set (nodeTasks w) \<and> edges ps m = Inr es \<and>
         trace w' = trace w @ (if load ps = None then [] else [LoadCall m]) @ [EdgesCall m] \<and>
         ready w' = ready w \<and> cb w' = cb w \<and>
         senders w' = senders w @ map (\<lambda>(child, color). (m, child, color)) es \<and>
         seen w' = seen w \<and> edgeTasks w' = edgeTasks w \<and>
         nodeTasks w' = remove1 (m, Loading) (nodeTasks w)"
      by blast
    then show thesis by (intro that(5) [of m es]) simp_all
  next
    case (EdgeVisit t)
    with st np have "edgeVisitStep ps t w = Some w'" by simp
    from edgeVisitStep_effect [OF this ok(2) ok(1)] obtain ev where
      "edgeVisit ps = Some ev \<and> t \<in> set (edgeTasks w) \<and>
         trace w' = trace w @ [EdgeVisitCall (fst (fst t)) (fst (snd (fst t))) (snd (snd (fst t)))] \<and>
         ready w' = ready w \<and>
         ev (cancelled w) (fst (fst t)) (fst (snd (fst t))) (snd (snd (fst t))) (cb w) = (None, cb w') \<and>
         senders w' = senders w \<and> seen w' = seen w \<and> nodeTasks w' = nodeTasks w \<and>
         edgeTasks w' = remove1 t (edgeTasks w)"
      by blast
    then show thesis by (intro that(6) [of ev t]) simp_all
  next
    case CtxCancel
    with st np show thesis
      by (intro that(2)) (auto simp: ctxCancel_def split: option.splits)
  qed
qed

lemma nodeInv_step:
  assumes st: "step ps ch w = Some w'" and ok: "firstErr w' = None" "panicked w' = None"
    and nv: "nodeVisit ps = Some nv"
    and inv: "nodeInv ps w"
  shows "nodeInv ps w'"
  using st ok nv
proof (cases rule: step_ok_cases)
  case (Receive qe)
  with inv show ?thesis by (auto simp: nodeInv_def)
next
  case Idle
  with inv show ?thesis by (simp add: nodeInv_def)
next
  case (VisitCall m)
  note r = atStage_remove1 [OF VisitCall(1)]
  from inv VisitCall r [of Spawned] r [of Visiting] r [of Loading] show ?thesis
    by (simp add: nodeInv_def)
next
  case (VisitReturn m d)
  note r = atStage_remove1 [OF VisitReturn(1)]
  from inv VisitReturn r [of Spawned] r [of Visiting] r [of Loading] show ?thesis
    by (simp add: nodeInv_def)
next
  case (Descend m es)
  note r = atStage_remove1 [OF Descend(1)]
  from inv Descend r [of Spawned] r [of Visiting] r [of Loading] show ?thesis
    by (simp add: nodeInv_def)
next
  case (EdgeVisit t ev)
  with inv show ?thesis by (simp add: nodeInv_def)
qed

lemma edgeInv_step:
  assumes st: "step ps ch w = Some w'" and ok: "firstErr w' = None" "panicked w' = None"
    and nv: "nodeVisit ps = Some nv"
    and inv: "edgeInv ps w"
  shows "edgeInv ps w'"
  using st ok nv
proof (cases rule: step_ok_cases)
  case (Receive qe)
  note r = filter_remove1_mset [OF Receive(1), of "\<lambda>qe. fst qe \<noteq> zeroN ps"]
  from inv Receive r show ?thesis
    by (auto simp: edgeInv_def)
next
  case Idle
  with inv show ?thesis by (simp add: edgeInv_def)
next
  case (VisitCall m)
  with inv show ?thesis by (simp add: edgeInv_def)
next
  case (VisitReturn m d)
  with inv show ?thesis by (simp add: edgeInv_def)
next
  case (Descend m es)
  then have "edgesOf ps m = map (\<lambda>(child, color). (m, child, color)) es"
    by (simp add: edgesOf_def)
  with inv Descend show ?thesis by (simp add: edgeInv_def)
next
  case (EdgeVisit t ev)
  note r = map_fst_remove1_mset [OF EdgeVisit(2)]
  from inv EdgeVisit r show ?thesis
    by (simp add: edgeInv_def)
qed

lemma walkEdge_mono: "set ms \<subseteq> set ms' \<Longrightarrow> (walkEdge ps ms)\<^sup>* \<subseteq> (walkEdge ps ms')\<^sup>*"
  by (rule rtrancl_mono) (auto simp: walkEdge_def)

lemma mset_sum_set: "mset a = mset b + mset c \<Longrightarrow> set a = set b \<union> set c"
  by (metis mset_append mset_eq_setD set_append)

lemma nodeInv_sets:
  assumes "nodeInv ps w"
  shows "set (seen w) = set (nodeCalls (trace w)) \<union> set (atStage Spawned (nodeTasks w))"
    and "set (nodeCalls (trace w)) =
           fst ` set (nodeReturns (trace w)) \<union> set (atStage Visiting (nodeTasks w))"
    and "set (descended (trace w)) =
           set (edgesCalls (trace w)) \<union> set (atStage Loading (nodeTasks w))"
proof -
  from assms have
    a: "mset (seen w) = mset (nodeCalls (trace w)) + mset (atStage Spawned (nodeTasks w))" and
    b: "mset (nodeCalls (trace w)) =
        mset (map fst (nodeReturns (trace w))) + mset (atStage Visiting (nodeTasks w))" and
    c: "mset (descended (trace w)) =
        mset (edgesCalls (trace w)) + mset (atStage Loading (nodeTasks w))"
    unfolding nodeInv_def by blast+
  from mset_sum_set [OF a]
  show "set (seen w) = set (nodeCalls (trace w)) \<union> set (atStage Spawned (nodeTasks w))" .
  from mset_sum_set [OF b]
  show "set (nodeCalls (trace w)) =
           fst ` set (nodeReturns (trace w)) \<union> set (atStage Visiting (nodeTasks w))" by simp
  from mset_sum_set [OF c]
  show "set (descended (trace w)) =
           set (edgesCalls (trace w)) \<union> set (atStage Loading (nodeTasks w))" .
qed

lemma descended_subset: "set (descended es) \<subseteq> fst ` set (nodeReturns es)"
  by (auto simp: descended_def)

lemma in_atStage: "(m, st) \<in> set ts \<Longrightarrow> m \<in> set (atStage st ts)"
  unfolding atStage_def by (induction ts) auto

lemma nodeInv_Loading_seen:
  assumes "nodeInv ps w" and "(m, Loading) \<in> set (nodeTasks w)"
  shows "m \<in> set (seen w)"
proof -
  from assms(2) have "m \<in> set (atStage Loading (nodeTasks w))"
    by (rule in_atStage)
  then have "m \<in> set (descended (trace w))"
    unfolding nodeInv_sets(3) [OF assms(1)] by (rule UnI2)
  then have "m \<in> fst ` set (nodeReturns (trace w))"
    using descended_subset by (rule subsetD [rotated])
  then have "m \<in> set (nodeCalls (trace w))"
    unfolding nodeInv_sets(2) [OF assms(1)] by (rule UnI1)
  then show ?thesis
    unfolding nodeInv_sets(1) [OF assms(1)] by (rule UnI1)
qed

lemma covInv_step:
  assumes st: "step ps ch w = Some w'" and ok: "firstErr w' = None" "panicked w' = None"
    and nv: "nodeVisit ps = Some nv"
    and inv: "covInv ps start w" and ninv: "nodeInv ps w"
  shows "covInv ps start w'"
  using st ok nv
proof (cases rule: step_ok_cases)
  case (Receive qe)
  from inv have
    c1: "start \<in> set (seen w) \<or> (zeroN ps, start, zeroE ps) \<in> set (senders w)" and
    c2: "\<And>m x. m \<in> set (edgesCalls (trace w)) \<Longrightarrow> x \<in> set (edgesOf ps m) \<Longrightarrow>
           fst (snd x) \<in> set (seen w) \<or> x \<in> set (senders w)" and
    c3: "\<And>m. m \<in> set (seen w) \<Longrightarrow> (start, m) \<in> (walkEdge ps (edgesCalls (trace w)))\<^sup>*" and
    c4: "\<And>x. x \<in> set (senders w) \<Longrightarrow> (start, fst (snd x)) \<in> (walkEdge ps (edgesCalls (trace w)))\<^sup>*"
    unfolding covInv_def by blast+
  have tgt: "fst (snd qe) \<in> set (seen w')" using Receive(4) by simp
  have sub: "set (seen w) \<subseteq> set (seen w')" using Receive(4) by auto
  have keep: "\<And>x. x \<in> set (senders w) \<Longrightarrow> fst (snd x) \<in> set (seen w') \<or> x \<in> set (senders w')"
  proof -
    fix x assume "x \<in> set (senders w)"
    then show "fst (snd x) \<in> set (seen w') \<or> x \<in> set (senders w')"
      using tgt Receive(3) by (cases "x = qe") simp_all
  qed
  have tr: "edgesCalls (trace w') = edgesCalls (trace w)" using Receive(2) by simp
  have d1: "start \<in> set (seen w') \<or> (zeroN ps, start, zeroE ps) \<in> set (senders w')"
  proof (cases "start \<in> set (seen w)")
    case True
    with sub show ?thesis by blast
  next
    case False
    with c1 have "(zeroN ps, start, zeroE ps) \<in> set (senders w)" by simp
    from keep [OF this] show ?thesis by simp
  qed
  have d2: "\<And>m x. m \<in> set (edgesCalls (trace w')) \<Longrightarrow> x \<in> set (edgesOf ps m) \<Longrightarrow>
           fst (snd x) \<in> set (seen w') \<or> x \<in> set (senders w')"
  proof -
    fix m x assume "m \<in> set (edgesCalls (trace w'))" "x \<in> set (edgesOf ps m)"
    with c2 [of m x] tr have "fst (snd x) \<in> set (seen w) \<or> x \<in> set (senders w)" by simp
    then show "fst (snd x) \<in> set (seen w') \<or> x \<in> set (senders w')"
      using sub keep [of x] by blast
  qed
  have d3: "\<And>m. m \<in> set (seen w') \<Longrightarrow> (start, m) \<in> (walkEdge ps (edgesCalls (trace w')))\<^sup>*"
  proof -
    fix m assume "m \<in> set (seen w')"
    then have "m \<in> set (seen w) \<or> m = fst (snd qe)"
      using Receive(4) by (auto split: if_splits)
    then show "(start, m) \<in> (walkEdge ps (edgesCalls (trace w')))\<^sup>*"
      unfolding tr using c3 [of m] c4 [OF Receive(1)] by blast
  qed
  have d4: "\<And>x. x \<in> set (senders w') \<Longrightarrow> (start, fst (snd x)) \<in> (walkEdge ps (edgesCalls (trace w')))\<^sup>*"
  proof -
    fix x assume "x \<in> set (senders w')"
    then have "x \<in> set (senders w)" unfolding Receive(3) using set_remove1_subset by fast
    then show "(start, fst (snd x)) \<in> (walkEdge ps (edgesCalls (trace w')))\<^sup>*"
      unfolding tr by (rule c4)
  qed
  show ?thesis unfolding covInv_def using d1 d2 d3 d4 by blast
next
  case Idle
  with inv show ?thesis by (simp add: covInv_def)
next
  case (VisitCall m)
  with inv show ?thesis by (simp add: covInv_def)
next
  case (VisitReturn m d)
  with inv show ?thesis by (simp add: covInv_def)
next
  case (Descend m es)
  from inv have
    c1: "start \<in> set (seen w) \<or> (zeroN ps, start, zeroE ps) \<in> set (senders w)" and
    c2: "\<And>m x. m \<in> set (edgesCalls (trace w)) \<Longrightarrow> x \<in> set (edgesOf ps m) \<Longrightarrow>
           fst (snd x) \<in> set (seen w) \<or> x \<in> set (senders w)" and
    c3: "\<And>m. m \<in> set (seen w) \<Longrightarrow> (start, m) \<in> (walkEdge ps (edgesCalls (trace w)))\<^sup>*" and
    c4: "\<And>x. x \<in> set (senders w) \<Longrightarrow> (start, fst (snd x)) \<in> (walkEdge ps (edgesCalls (trace w)))\<^sup>*"
    unfolding covInv_def by blast+
  have eo: "edgesOf ps m = map (\<lambda>(child, color). (m, child, color)) es"
    using Descend(2) by (simp add: edgesOf_def)
  have ec: "edgesCalls (trace w') = edgesCalls (trace w) @ [m]" using Descend(3) by simp
  have mono: "(walkEdge ps (edgesCalls (trace w)))\<^sup>* \<subseteq> (walkEdge ps (edgesCalls (trace w')))\<^sup>*"
    by (rule walkEdge_mono) (auto simp: ec)
  have sm: "(start, m) \<in> (walkEdge ps (edgesCalls (trace w')))\<^sup>*"
    using c3 [OF nodeInv_Loading_seen [OF ninv Descend(1)]] mono by (rule subsetD [rotated])
  have snd': "set (senders w') = set (senders w) \<union> set (edgesOf ps m)"
    using Descend(4) eo by simp
  have d1: "start \<in> set (seen w') \<or> (zeroN ps, start, zeroE ps) \<in> set (senders w')"
    unfolding Descend(5) snd' using c1 by blast
  have d2: "\<And>m' x. m' \<in> set (edgesCalls (trace w')) \<Longrightarrow> x \<in> set (edgesOf ps m') \<Longrightarrow>
           fst (snd x) \<in> set (seen w') \<or> x \<in> set (senders w')"
  proof -
    fix m' x assume a: "m' \<in> set (edgesCalls (trace w'))" "x \<in> set (edgesOf ps m')"
    show "fst (snd x) \<in> set (seen w') \<or> x \<in> set (senders w')"
    proof (cases "m' = m")
      case True
      with a(2) snd' show ?thesis by simp
    next
      case False
      with a(1) ec have "m' \<in> set (edgesCalls (trace w))" by simp
      from c2 [OF this a(2)] show ?thesis unfolding Descend(5) snd' by blast
    qed
  qed
  have d3: "\<And>m. m \<in> set (seen w') \<Longrightarrow> (start, m) \<in> (walkEdge ps (edgesCalls (trace w')))\<^sup>*"
  proof -
    fix m' assume "m' \<in> set (seen w')"
    then have "m' \<in> set (seen w)" unfolding Descend(5) .
    from c3 [OF this] mono show "(start, m') \<in> (walkEdge ps (edgesCalls (trace w')))\<^sup>*" by (rule subsetD [rotated])
  qed
  have d4: "\<And>x. x \<in> set (senders w') \<Longrightarrow> (start, fst (snd x)) \<in> (walkEdge ps (edgesCalls (trace w')))\<^sup>*"
  proof -
    fix x assume "x \<in> set (senders w')"
    then consider "x \<in> set (senders w)" | "x \<in> set (edgesOf ps m)" unfolding snd' by blast
    then show "(start, fst (snd x)) \<in> (walkEdge ps (edgesCalls (trace w')))\<^sup>*"
    proof cases
      case 1
      from c4 [OF 1] mono show ?thesis by (rule subsetD [rotated])
    next
      case 2
      then obtain child c where x: "x = (m, child, c)" unfolding eo by auto
      with 2 have "(m, child) \<in> walkEdge ps (edgesCalls (trace w'))"
        unfolding walkEdge_def ec by auto
      with sm have "(start, child) \<in> (walkEdge ps (edgesCalls (trace w')))\<^sup>*"
        by (rule rtrancl_into_rtrancl)
      then show ?thesis unfolding x by simp
    qed
  qed
  show ?thesis unfolding covInv_def using d1 d2 d3 d4 by blast
next
  case (EdgeVisit t ev)
  with inv show ?thesis by (simp add: covInv_def)
qed

lemma walkInv_init: "walkInv ps start (initWalk ps c start s)"
  by (simp add: walkInv_def nodeInv_def edgeInv_def covInv_def initWalk_def)

lemma walkInv_step:
  assumes nv: "nodeVisit ps = Some nv"
    and inv: "walkInv ps start w" and st: "step ps ch w = Some w'"
  shows "walkInv ps start w'"
  unfolding walkInv_def
proof
  assume ok: "firstErr w' = None \<and> panicked w' = None"
  from st have "panicked w = None" by (simp split: if_splits)
  moreover from step_firstErr_mono [OF st] ok have "firstErr w = None" by simp
  ultimately have i: "nodeInv ps w" "edgeInv ps w" "covInv ps start w"
    using inv by (simp_all add: walkInv_def)
  from ok have ok1: "firstErr w' = None" and ok2: "panicked w' = None" by simp_all
  show "nodeInv ps w' \<and> edgeInv ps w' \<and> covInv ps start w'"
    using nodeInv_step [OF st ok1 ok2 nv i(1)] edgeInv_step [OF st ok1 ok2 nv i(2)]
          covInv_step [OF st ok1 ok2 nv i(3) i(1)]
    by simp
qed

lemma walkInv_run:
  assumes nv: "nodeVisit ps = Some nv"
    and r: "run ps sched (initWalk ps c start s) = Some w"
  shows "walkInv ps start w"
  by (rule run_invariant [where I = "walkInv ps start", OF walkInv_step [OF nv] walkInv_init r])

lemma walkEdge_cong: "set ms = set ms' \<Longrightarrow> walkEdge ps ms = walkEdge ps ms'"
  by (simp add: walkEdge_def)

lemma walkGraph_finished:
  assumes "walkGraph ps c start s sched = Some (Inr (e, s', tr))"
  obtains w where "run ps sched (initWalk ps c start s) = Some w" "panicked w = None"
    "finished w" "firstErr w = e" "cb w = s'" "trace w = tr"
  using assms unfolding walkGraph_def
  by (auto split: option.splits if_splits)


lemma walkGraph_complete:
  assumes nv: "nodeVisit ps = Some nv"
    and r: "walkGraph ps c start s sched = Some (Inr (None, s', tr))"
  shows "distinct (nodeCalls tr) \<and>
         set (nodeCalls tr) = (walkEdge ps (descended tr))\<^sup>* `` {start} \<and>
         mset (map fst (nodeReturns tr)) = mset (nodeCalls tr) \<and>
         (load ps \<noteq> None \<longrightarrow> mset (loadCalls tr) = mset (descended tr)) \<and>
         mset (edgesCalls tr) = mset (descended tr) \<and>
         (edgeVisit ps \<noteq> None \<longrightarrow> mset (edgeCalls tr) = mset (discovered ps tr))"
proof -
  from r obtain w where run: "run ps sched (initWalk ps c start s) = Some w"
    and fin: "panicked w = None" "finished w" "firstErr w = None" and tr: "trace w = tr"
    by (rule walkGraph_finished)
  from walkInv_run [OF nv run] fin have
    ni: "nodeInv ps w" and ei: "edgeInv ps w" and ci: "covInv ps start w"
    by (simp_all add: walkInv_def)
  from fin(2) have e: "senders w = []" "nodeTasks w = []" "edgeTasks w = []"
    by (simp_all add: finished_def)
  from ni have n1: "distinct (seen w)" and n2: "mset (seen w) = mset (nodeCalls tr)"
    and n3: "mset (nodeCalls tr) = mset (map fst (nodeReturns tr))"
    and n4: "mset (descended tr) = mset (edgesCalls tr)"
    and n5: "load ps \<noteq> None \<longrightarrow> loadCalls tr = edgesCalls tr"
    unfolding nodeInv_def e tr by simp_all
  from ei have e1: "edgeVisit ps \<noteq> None \<longrightarrow> mset (discovered ps tr) = mset (edgeCalls tr)"
    unfolding edgeInv_def e tr by simp
  from ci have
    c1: "start \<in> set (seen w)" and
    c2: "\<And>m x. m \<in> set (edgesCalls tr) \<Longrightarrow> x \<in> set (edgesOf ps m) \<Longrightarrow> fst (snd x) \<in> set (seen w)" and
    c3: "\<And>m. m \<in> set (seen w) \<Longrightarrow> (start, m) \<in> (walkEdge ps (edgesCalls tr))\<^sup>*"
    unfolding covInv_def e tr by simp_all
  have sn: "set (seen w) = set (nodeCalls tr)" using n2 by (rule mset_eq_setD)
  have sd: "set (descended tr) = set (edgesCalls tr)" using n4 by (rule mset_eq_setD)
  have we: "walkEdge ps (descended tr) = walkEdge ps (edgesCalls tr)"
    using sd by (rule walkEdge_cong)
  have d: "distinct (nodeCalls tr)"
    using n1 n2 by (metis mset_eq_imp_distinct_iff)
  have closed: "(start, m) \<in> (walkEdge ps (edgesCalls tr))\<^sup>* \<Longrightarrow> m \<in> set (seen w)" for m
  proof (induction rule: rtrancl_induct)
    case base
    show ?case by (rule c1)
  next
    case (step y z)
    from step.hyps(2) obtain col where "y \<in> set (edgesCalls tr)" "(y, z, col) \<in> set (edgesOf ps y)"
      by (auto simp: walkEdge_def)
    from c2 [OF this] show ?case by simp
  qed
  have reach: "set (nodeCalls tr) = (walkEdge ps (descended tr))\<^sup>* `` {start}"
    unfolding we sn [symmetric] using c3 closed by blast
  show ?thesis using d reach n3 n4 n5 e1 by simp
qed





section \<open>Properties of \<open>ResolveMvs\<close>\<close>

lemma mvsVisit_cases:
  assumes "mvsVisit c m sel = (Inr d, sel')"
  obtains (New) r where "m = Some r" "d" "sel' = AList.update (Path r) r sel"
      "map_of sel (Path r) = None"
  | (Newer) r d0 where "m = Some r" "d" "sel' = AList.update (Path r) r sel"
      "map_of sel (Path r) = Some d0" "0 < Compare (Version r) (Version d0)"
  | (Keep) r d0 where "m = Some r" "d" "sel' = sel"
      "map_of sel (Path r) = Some d0" "Compare (Version r) (Version d0) \<le> 0"
  using assms unfolding mvsVisit_def
  by (auto split: option.splits if_splits)

lemma mvsInv_init: "mvsInv (initWalk ps c start [])"
  by (simp add: mvsInv_def initWalk_def)

lemma mvsInv_step:
  assumes inv: "mvsInv w" and st: "step (reqParams rg (Some mvsVisit) None) ch w = Some w'"
  shows "mvsInv w'"
  unfolding mvsInv_def
proof
  assume ok: "firstErr w' = None \<and> panicked w' = None"
  then have ok1: "firstErr w' = None" and ok2: "panicked w' = None" by simp_all
  from st have "panicked w = None" by (simp split: if_splits)
  moreover from step_firstErr_mono [OF st ok1] have "firstErr w = None" .
  ultimately have
    p1: "\<And>x. x \<in> set (nodeReturns (trace w)) \<Longrightarrow> snd x \<and>
            (\<exists>r d. fst x = Some r \<and> map_of (cb w) (Path r) = Some d \<and>
                   Compare (Version r) (Version d) \<le> 0)" and
    p2: "\<And>p d. map_of (cb w) p = Some d \<Longrightarrow>
            Path d = p \<and> (Some d, True) \<in> set (nodeReturns (trace w))"
    using inv unfolding mvsInv_def by blast+
  have nv: "nodeVisit (reqParams rg (Some mvsVisit) None) = Some mvsVisit"
    by (simp add: reqParams_def)
  have ev: "edgeVisit (reqParams rg (Some mvsVisit) None) = None"
    by (simp add: reqParams_def)
  let ?G = "\<lambda>w. (\<forall>x \<in> set (nodeReturns (trace w)). snd x \<and>
            (\<exists>r d. fst x = Some r \<and> map_of (cb w) (Path r) = Some d \<and>
                   Compare (Version r) (Version d) \<le> 0)) \<and>
        (\<forall>p d. map_of (cb w) p = Some d \<longrightarrow>
            Path d = p \<and> (Some d, True) \<in> set (nodeReturns (trace w)))"
  have same: "nodeReturns (trace w') = nodeReturns (trace w) \<Longrightarrow> cb w' = cb w \<Longrightarrow> ?G w'"
    using p1 p2 by simp
  from st ok1 ok2 nv show "?G w'"
  proof (cases rule: step_ok_cases)
    case (Receive qe)
    then show ?thesis by (intro same) simp_all
  next
    case Idle
    then show ?thesis by (intro same) simp_all
  next
    case (VisitCall m)
    then show ?thesis by (intro same) simp_all
  next
    case (Descend m es)
    then show ?thesis by (intro same) simp_all
  next
    case (EdgeVisit t ev')
    with ev show ?thesis by simp
  next
    case (VisitReturn m d)
    have nr: "nodeReturns (trace w') = nodeReturns (trace w) @ [(m, d)]"
      using VisitReturn(2) by simp
    from VisitReturn(8) show ?thesis
    proof (cases rule: mvsVisit_cases)
      case (New r)
      have no_old: "x \<in> set (nodeReturns (trace w)) \<Longrightarrow> fst x = Some r' \<Longrightarrow> Path r' \<noteq> Path r" for x r'
        using p1 [of x] New(4) by auto
      have g1: "\<forall>x \<in> set (nodeReturns (trace w')). snd x \<and>
            (\<exists>r d. fst x = Some r \<and> map_of (cb w') (Path r) = Some d \<and>
                   Compare (Version r) (Version d) \<le> 0)"
      proof
        fix x assume "x \<in> set (nodeReturns (trace w'))"
        then consider "x \<in> set (nodeReturns (trace w))" | "x = (m, d)" unfolding nr by auto
        then show "snd x \<and> (\<exists>r d. fst x = Some r \<and> map_of (cb w') (Path r) = Some d \<and>
                   Compare (Version r) (Version d) \<le> 0)"
        proof cases
          case 1
          from p1 [OF 1] obtain r' d' where o: "snd x" "fst x = Some r'"
            "map_of (cb w) (Path r') = Some d'" "Compare (Version r') (Version d') \<le> 0" by blast
          from no_old [OF 1 o(2)] have "map_of (cb w') (Path r') = Some d'"
            unfolding New(3) using o(3) by (simp add: update_conv')
          with o show ?thesis by blast
        next
          case 2
          have "map_of (cb w') (Path r) = Some r" unfolding New(3) by (simp add: update_conv')
          with 2 New(1,2) show ?thesis by (simp add: Compare_refl)
        qed
      qed
      have g2: "\<forall>p d. map_of (cb w') p = Some d \<longrightarrow>
            Path d = p \<and> (Some d, True) \<in> set (nodeReturns (trace w'))"
      proof (intro allI impI)
        fix p d' assume a: "map_of (cb w') p = Some d'"
        show "Path d' = p \<and> (Some d', True) \<in> set (nodeReturns (trace w'))"
        proof (cases "p = Path r")
          case True
          with a have "d' = r" unfolding New(3) by (simp add: update_conv')
          with True New(1,2) show ?thesis unfolding nr by simp
        next
          case False
          with a have "map_of (cb w) p = Some d'" unfolding New(3) by (simp add: update_conv')
          from p2 [OF this] show ?thesis unfolding nr by simp
        qed
      qed
      from g1 g2 show ?thesis by blast
    next
      case (Newer r d0)
      have g1: "\<forall>x \<in> set (nodeReturns (trace w')). snd x \<and>
            (\<exists>r d. fst x = Some r \<and> map_of (cb w') (Path r) = Some d \<and>
                   Compare (Version r) (Version d) \<le> 0)"
      proof
        fix x assume "x \<in> set (nodeReturns (trace w'))"
        then consider "x \<in> set (nodeReturns (trace w))" | "x = (m, d)" unfolding nr by auto
        then show "snd x \<and> (\<exists>r d. fst x = Some r \<and> map_of (cb w') (Path r) = Some d \<and>
                   Compare (Version r) (Version d) \<le> 0)"
        proof cases
          case 1
          from p1 [OF 1] obtain r' d' where o: "snd x" "fst x = Some r'"
            "map_of (cb w) (Path r') = Some d'" "Compare (Version r') (Version d') \<le> 0" by blast
          show ?thesis
          proof (cases "Path r' = Path r")
            case True
            with o(3) Newer(4) have "d' = d0" by simp
            have "Compare (Version d0) (Version r) \<le> 0"
              using Newer(5) Compare_flip [of "Version r" "Version d0"] by simp
            with o(4) \<open>d' = d0\<close> have "Compare (Version r') (Version r) \<le> 0"
              using Compare_trans_le by blast
            moreover have "map_of (cb w') (Path r') = Some r"
              unfolding Newer(3) True by (simp add: update_conv')
            ultimately show ?thesis using o by blast
          next
            case False
            then have "map_of (cb w') (Path r') = Some d'"
              unfolding Newer(3) using o(3) by (simp add: update_conv')
            with o show ?thesis by blast
          qed
        next
          case 2
          have "map_of (cb w') (Path r) = Some r" unfolding Newer(3) by (simp add: update_conv')
          with 2 Newer(1,2) show ?thesis by (simp add: Compare_refl)
        qed
      qed
      have g2: "\<forall>p d. map_of (cb w') p = Some d \<longrightarrow>
            Path d = p \<and> (Some d, True) \<in> set (nodeReturns (trace w'))"
      proof (intro allI impI)
        fix p d' assume a: "map_of (cb w') p = Some d'"
        show "Path d' = p \<and> (Some d', True) \<in> set (nodeReturns (trace w'))"
        proof (cases "p = Path r")
          case True
          with a have "d' = r" unfolding Newer(3) by (simp add: update_conv')
          with True Newer(1,2) show ?thesis unfolding nr by simp
        next
          case False
          with a have "map_of (cb w) p = Some d'" unfolding Newer(3) by (simp add: update_conv')
          from p2 [OF this] show ?thesis unfolding nr by simp
        qed
      qed
      from g1 g2 show ?thesis by blast
    next
      case (Keep r d0)
      have g1: "\<forall>x \<in> set (nodeReturns (trace w')). snd x \<and>
            (\<exists>r d. fst x = Some r \<and> map_of (cb w') (Path r) = Some d \<and>
                   Compare (Version r) (Version d) \<le> 0)"
      proof
        fix x assume "x \<in> set (nodeReturns (trace w'))"
        then consider "x \<in> set (nodeReturns (trace w))" | "x = (m, d)" unfolding nr by auto
        then show "snd x \<and> (\<exists>r d. fst x = Some r \<and> map_of (cb w') (Path r) = Some d \<and>
                   Compare (Version r) (Version d) \<le> 0)"
        proof cases
          case 1
          from p1 [OF 1] show ?thesis unfolding Keep(3) .
        next
          case 2
          with Keep show ?thesis by simp
        qed
      qed
      have g2: "\<forall>p d. map_of (cb w') p = Some d \<longrightarrow>
            Path d = p \<and> (Some d, True) \<in> set (nodeReturns (trace w'))"
        unfolding Keep(3) nr using p2 by simp
      from g1 g2 show ?thesis by blast
    qed
  qed
qed

lemma mvsInv_run:
  assumes "run (reqParams rg (Some mvsVisit) None) sched (initWalk (reqParams rg (Some mvsVisit) None) c start []) = Some w"
  shows "mvsInv w"
  using mvsInv_init assms
  by (rule run_invariant [where I = mvsInv, rotated]) (rule mvsInv_step)

lemma surpriseLoop_frame:
  "surpriseLoop mc c rg dg0 ds = Inr dg \<Longrightarrow> dg_sel dg = dg_sel dg0 \<and> dg_rg dg = dg_rg dg0"
proof (induction ds arbitrary: dg0)
  case Nil
  then show ?case by simp
next
  case (Cons d ds)
  from Cons.prems obtain S where
    rec: "surpriseLoop mc c rg (dg0\<lparr>dg_surprise := AList.update d S (dg_surprise dg0)\<rparr>) ds = Inr dg"
    by (cases "computeSurpriseDeps mc c rg dg0 d") simp_all
  from Cons.IH [OF rec] show ?case by simp
qed

lemma descended_all:
  assumes "\<forall>x \<in> set (nodeReturns tr). snd x"
  shows "descended tr = map fst (nodeReturns tr)"
proof -
  from assms have "filter snd (nodeReturns tr) = nodeReturns tr" by (simp add: filter_id_conv)
  then show ?thesis by (simp add: descended_def)
qed

lemma reqParams_edgesOf:
  "edgesOf (reqParams rg nv ev) (Some y) =
     (case Reqs rg y of Inl f \<Rightarrow> [] | Inr es \<Rightarrow> map (\<lambda>(ch, ind). (Some y, Some ch, ind)) es)"
  by (simp add: edgesOf_def reqParams_def reqEdges_def split: sum.splits prod.splits)

lemma mvs_walk_reach:
  assumes w: "walkGraph (reqParams rg (Some mvsVisit) None) c (Root rg) [] sched = Some (Inr (None, sel, tr))"
  shows "(\<forall>r \<in> reachable rg. \<exists>d. map_of sel (Path r) = Some d \<and> d \<in> reachable rg \<and>
            Path d = Path r \<and> Compare (Version r) (Version d) \<le> 0) \<and>
         (\<forall>p d. map_of sel p = Some d \<longrightarrow> d \<in> reachable rg \<and> Path d = p)"
proof -
  let ?ps = "reqParams rg (Some mvsVisit) None"
  have nv: "nodeVisit ?ps = Some mvsVisit" by (simp add: reqParams_def)
  from w obtain wk where run: "run ?ps sched (initWalk ?ps c (Root rg) []) = Some wk"
    and fin: "panicked wk = None" "firstErr wk = None" and cb: "cb wk = sel" and tr: "trace wk = tr"
    by (rule walkGraph_finished)
  from mvsInv_run [OF run] fin have
    p1: "\<And>x. x \<in> set (nodeReturns tr) \<Longrightarrow> snd x \<and>
            (\<exists>r d. fst x = Some r \<and> map_of sel (Path r) = Some d \<and>
                   Compare (Version r) (Version d) \<le> 0)" and
    p2: "\<And>p d. map_of sel p = Some d \<Longrightarrow> Path d = p \<and> (Some d, True) \<in> set (nodeReturns tr)"
    unfolding mvsInv_def cb tr by blast+
  from walkGraph_complete [OF nv w] have
    reach: "set (nodeCalls tr) = (walkEdge ?ps (descended tr))\<^sup>* `` {Root rg}" and
    ret: "mset (map fst (nodeReturns tr)) = mset (nodeCalls tr)"
    by simp_all
  have da: "descended tr = map fst (nodeReturns tr)"
    by (rule descended_all) (use p1 in blast)
  define V where "V = fst ` set (nodeReturns tr)"
  have V1: "set (nodeCalls tr) = V" using mset_eq_setD [OF ret] by (simp add: V_def)
  have V2: "set (descended tr) = V" by (simp add: da V_def)
  have Vreach: "V = (walkEdge ?ps (descended tr))\<^sup>* `` {Root rg}" using reach V1 by simp
  have Vsome: "x \<in> V \<Longrightarrow> \<exists>r. x = Some r" for x using p1 unfolding V_def by fastforce
  have "Root rg \<in> V" unfolding Vreach by simp
  with Vsome obtain root where root: "Root rg = Some root" by blast
  have closed: "Some y \<in> V \<Longrightarrow> (y, z) \<in> reqEdge rg \<Longrightarrow> Some z \<in> V" for y z
  proof -
    assume y: "Some y \<in> V" and e: "(y, z) \<in> reqEdge rg"
    from e obtain es ind where es: "Reqs rg y = Inr es" "(z, ind) \<in> set es"
      by (auto simp: reqEdge_def)
    then have "(Some y, Some z, ind) \<in> set (edgesOf ?ps (Some y))"
      unfolding reqParams_edgesOf by force
    with y V2 have "(Some y, Some z) \<in> walkEdge ?ps (descended tr)"
      unfolding walkEdge_def by blast
    moreover from y have "(Root rg, Some y) \<in> (walkEdge ?ps (descended tr))\<^sup>*"
      unfolding Vreach by simp
    ultimately have "(Root rg, Some z) \<in> (walkEdge ?ps (descended tr))\<^sup>*"
      by (rule rtrancl_into_rtrancl [rotated])
    then show "Some z \<in> V" unfolding Vreach by simp
  qed
  have in_V: "(root, r) \<in> (reqEdge rg)\<^sup>* \<Longrightarrow> Some r \<in> V" for r
  proof (induction rule: rtrancl_induct)
    case base
    from \<open>Root rg \<in> V\<close> root show ?case by simp
  next
    case (step y z)
    from closed [OF step.IH step.hyps(2)] show ?case .
  qed
  have from_V: "(Root rg, x) \<in> (walkEdge ?ps (descended tr))\<^sup>* \<Longrightarrow>
                  \<exists>r. x = Some r \<and> (root, r) \<in> (reqEdge rg)\<^sup>*" for x
  proof (induction rule: rtrancl_induct)
    case base
    from root show ?case by simp
  next
    case (step y z)
    from step.IH obtain y' where y': "y = Some y'" "(root, y') \<in> (reqEdge rg)\<^sup>*" by blast
    from step.hyps(2) obtain col where "(y, z, col) \<in> set (edgesOf ?ps y)"
      by (auto simp: walkEdge_def)
    then have m: "(Some y', z, col) \<in> set (edgesOf ?ps (Some y'))" unfolding y' .
    obtain es ch where "Reqs rg y' = Inr es" "(ch, col) \<in> set es" "z = Some ch"
    proof (cases "Reqs rg y'")
      case (Inl f)
      with m show ?thesis unfolding reqParams_edgesOf by simp
    next
      case (Inr es)
      with m obtain ch where "(ch, col) \<in> set es" "z = Some ch"
        unfolding reqParams_edgesOf by auto
      with Inr show ?thesis by (rule that)
    qed
    then have "(y', ch) \<in> reqEdge rg" "z = Some ch" by (auto simp: reqEdge_def)
    with y'(2) show ?case by (auto intro: rtrancl_into_rtrancl)
  qed
  have V_iff: "Some r \<in> V \<longleftrightarrow> r \<in> reachable rg" for r
  proof
    assume "Some r \<in> V"
    then have "(Root rg, Some r) \<in> (walkEdge ?ps (descended tr))\<^sup>*" unfolding Vreach by simp
    from from_V [OF this] show "r \<in> reachable rg" using root by (simp add: reachable_def)
  next
    assume "r \<in> reachable rg"
    then have "(root, r) \<in> (reqEdge rg)\<^sup>*" using root by (simp add: reachable_def)
    then show "Some r \<in> V" by (rule in_V)
  qed
  have g2: "\<forall>p d. map_of sel p = Some d \<longrightarrow> d \<in> reachable rg \<and> Path d = p"
  proof (intro allI impI)
    fix p d assume "map_of sel p = Some d"
    from p2 [OF this] have "Path d = p" "Some d \<in> V" unfolding V_def by force+
    then show "d \<in> reachable rg \<and> Path d = p" using V_iff by simp
  qed
  have g1: "\<forall>r \<in> reachable rg. \<exists>d. map_of sel (Path r) = Some d \<and> d \<in> reachable rg \<and>
            Path d = Path r \<and> Compare (Version r) (Version d) \<le> 0"
  proof
    fix r assume "r \<in> reachable rg"
    then have "Some r \<in> V" using V_iff by simp
    then obtain x where x: "x \<in> set (nodeReturns tr)" "fst x = Some r" unfolding V_def by auto
    from p1 [OF x(1)] x(2) obtain d where d: "map_of sel (Path r) = Some d"
      "Compare (Version r) (Version d) \<le> 0" by auto
    from g2 d(1) have "d \<in> reachable rg" "Path d = Path r" by simp_all
    with d show "\<exists>d. map_of sel (Path r) = Some d \<and> d \<in> reachable rg \<and>
            Path d = Path r \<and> Compare (Version r) (Version d) \<le> 0" by blast
  qed
  from g1 g2 show ?thesis by blast
qed

text \<open>
  Claim C1. Whenever \<open>ResolveMvs\<close> succeeds, under every schedule of its walk: every
  requirement \<open>r\<close> reachable from the root has its path selected, the selected
  dependency \<open>d\<close> is itself a reachable requirement of that path, no reachable
  requirement of the path has a version above that of \<open>d\<close> in the semantic-version
  order, and \<open>Selected\<close> returns \<open>d\<close> for \<open>r\<close>, with a version that is not below that of
  \<open>r\<close>; and the selection has no other entries.
\<close>

theorem ResolveMvs_selects_maximum:
  assumes "ResolveMvs module_Check c rg sched = Some (Inr dg)"
  shows "(\<forall>r \<in> reachable rg. \<exists>d. map_of (dg_sel dg) (Path r) = Some d \<and> d \<in> reachable rg \<and>
            Path d = Path r \<and> Compare (Version r) (Version d) \<le> 0 \<and>
            Selected dg r = Some d \<and> 0 \<le> Compare (Version d) (Version r)) \<and>
         (\<forall>p d. map_of (dg_sel dg) p = Some d \<longrightarrow> d \<in> reachable rg \<and> Path d = p)"
proof -
  from assms obtain sel tr where
    w: "WalkRequirementGraph c rg (Root rg) (Some mvsVisit) None [] sched = Some (Inr (None, sel, tr))"
    and s: "surpriseLoop module_Check c rg \<lparr>dg_rg = rg, dg_sel = sel, dg_surprise = []\<rparr> (map snd sel) = Inr dg"
    unfolding ResolveMvs_def by (auto split: option.splits sum.splits)
  from surpriseLoop_frame [OF s] have sel: "dg_sel dg = sel" by simp
  from w have "walkGraph (reqParams rg (Some mvsVisit) None) c (Root rg) [] sched = Some (Inr (None, sel, tr))"
    by (simp add: WalkRequirementGraph_def)
  from mvs_walk_reach [OF this] have
    g1: "\<And>r. r \<in> reachable rg \<Longrightarrow> \<exists>d. map_of sel (Path r) = Some d \<and> d \<in> reachable rg \<and>
            Path d = Path r \<and> Compare (Version r) (Version d) \<le> 0" and
    g2: "\<forall>p d. map_of sel p = Some d \<longrightarrow> d \<in> reachable rg \<and> Path d = p"
    by blast+
  have "\<forall>r \<in> reachable rg. \<exists>d. map_of (dg_sel dg) (Path r) = Some d \<and> d \<in> reachable rg \<and>
            Path d = Path r \<and> Compare (Version r) (Version d) \<le> 0 \<and>
            Selected dg r = Some d \<and> 0 \<le> Compare (Version d) (Version r)"
  proof
    fix r assume "r \<in> reachable rg"
    from g1 [OF this] obtain d where d: "map_of sel (Path r) = Some d" "d \<in> reachable rg"
      "Path d = Path r" "Compare (Version r) (Version d) \<le> 0" by blast
    have ge: "0 \<le> Compare (Version d) (Version r)"
      using d(4) Compare_flip [of "Version r" "Version d"] by simp
    then have "Selected dg r = Some d" using d(1) by (simp add: Selected_def sel)
    with d ge show "\<exists>d. map_of (dg_sel dg) (Path r) = Some d \<and> d \<in> reachable rg \<and>
            Path d = Path r \<and> Compare (Version r) (Version d) \<le> 0 \<and>
            Selected dg r = Some d \<and> 0 \<le> Compare (Version d) (Version r)"
      unfolding sel by blast
  qed
  with g2 show ?thesis unfolding sel by blast
qed

lemma sur_reqs:
  "Root (asRequirementGraph accept_all sur_rg) = Some sur_a1"
  "Reqs (asRequirementGraph accept_all sur_rg) sur_a1 = Inr [(sur_b, False), (sur_a0, True)]"
  "map_of (dg_sel sur_dg) (Path sur_a0) = Some sur_a1"
  by code_simp+

theorem ResolveMvs_selects_maximum_witness:
  "ResolveMvs accept_all None (asRequirementGraph accept_all sur_rg) sur_sched = Some (Inr sur_dg) \<and>
   sur_a0 \<in> reachable (asRequirementGraph accept_all sur_rg) \<and>
   map_of (dg_sel sur_dg) (Path sur_a0) = Some sur_a1 \<and>
   sur_a1 \<in> reachable (asRequirementGraph accept_all sur_rg) \<and>
   Compare (Version sur_a0) (Version sur_a1) \<le> 0 \<and>
   Selected sur_dg sur_a0 = Some sur_a1"
proof -
  have "(sur_a1, sur_a0) \<in> reqEdge (asRequirementGraph accept_all sur_rg)"
    unfolding reqEdge_def using sur_reqs(2) by auto
  then have re: "sur_a0 \<in> reachable (asRequirementGraph accept_all sur_rg)"
    unfolding reachable_def using sur_reqs(1) by auto
  from ResolveMvs_selects_maximum [OF sur_resolve] re obtain d where
    "map_of (dg_sel sur_dg) (Path sur_a0) = Some d"
    "d \<in> reachable (asRequirementGraph accept_all sur_rg)"
    "Compare (Version sur_a0) (Version d) \<le> 0" "Selected sur_dg sur_a0 = Some d"
    by blast
  with sur_reqs(3) sur_resolve re show ?thesis by simp
qed

section \<open>Properties of \<open>UnifyRequirements\<close>\<close>

text \<open>
  Claim C7 says that \<open>UnifyRequirements\<close>, applied to its own output, returns that output
  again. The code does not keep to it. On the graph in which version 1.0.0 of the root
  requires \<open>dep\<close> and \<open>dep\<close> requires version 1.1.0 of the root, the first walk meets the
  newer version of the root and asks for a restart; the second walk starts at the root
  of the first result, which is still version 1.0.0, finds it older than the newest
  version seen and does not descend. \<open>UnifyRequirements\<close> returns, without an error, a
  graph that has no root and no node. Applied to that graph it panics, as \<open>nodeVisit\<close> is
  called with the nil root.
\<close>

theorem UnifyRequirements_loses_root:
  "UnifyRequirements accept_all None (asRequirementGraph accept_all uni_rg) [uni_sched1, uni_sched2]
     = Some (Inr uni_out) \<and>
   uni_out = \<lparr>rg_root = None, rg_reqs = []\<rparr> \<and>
   UnifyRequirements accept_all None (asRequirementGraph accept_all uni_out) [uni_sched3]
     = Some (Inl (Panic ''nil pointer dereference''))"
  by code_simp

end
